theory Spec2Isabelle
  imports Complex_Main
begin

section \<open>DecisionDeck: the vote ledger, its queries and the authentication rate limiter\<close>

text \<open>
  The development embeds the server side of DecisionDeck that decides how ballots are
  stored and counted: the handlers of \<^verbatim>\<open>server/routes/votes.js\<close> (submit a vote, results
  of a position, voting history, invalidate a vote), the Vote schema of
  \<^verbatim>\<open>server/models/Vote.js\<close>, the Candidate schema with its \<^verbatim>\<open>updateStats\<close> method and
  \<^verbatim>\<open>pre('save')\<close> hook, and the \<^verbatim>\<open>rateLimitAuth\<close> middleware.

  The routes load the Vote model of \<^verbatim>\<open>server/models/Vote.js\<close>, which has indexes and no
  hooks, and the Candidate model, which has both.

  The document store and the object-document mapper are external. They are modelled by
  what the handlers rely on:
  \<^item> a collection is the list of its documents in insertion order;
  \<^item> a string field declared \<^verbatim>\<open>trim: true\<close> is passed through \<open>trim\<close> whenever a value
    reaches the store, in a document as in a query filter; characters are the 256 of
    \<open>char\<close>, and \<open>trim\<close> removes those of them that \<^verbatim>\<open>String.prototype.trim\<close> removes;
  \<^item> saving a new document runs the \<^verbatim>\<open>required\<close> validators and then inserts under the
    unique indexes of the collection; a violation rejects the save, and the handler's
    \<^verbatim>\<open>catch\<close> answers 500;
  \<^item> saving a Candidate first runs the schema's \<^verbatim>\<open>pre('save')\<close> hook; a \<^verbatim>\<open>save()\<close> called
    on a document while a save of that document is in progress is rejected with a
    \<^verbatim>\<open>ParallelSaveError\<close>; a hook that fails rejects the save it belongs to, and nothing
    is written;
  \<^item> the clock and the identifier generated for a new document are inputs of a request.

  One handler runs at a time: the states below are those of the store between two
  requests. The Socket.IO broadcast after a vote reads the store and writes nothing; it
  is left out.
\<close>

subsection \<open>Identifiers, time, strings\<close>

type_synonym oid = nat
type_synonym time = nat

definition hexDigit :: "char \<Rightarrow> nat option" where
  "hexDigit c =
     (let n = (of_char c :: nat)
      in if 48 \<le> n \<and> n \<le> 57 then Some (n - 48)
         else if 97 \<le> n \<and> n \<le> 102 then Some (n - 87)
         else if 65 \<le> n \<and> n \<le> 70 then Some (n - 55)
         else None)"

fun hexDigits :: "string \<Rightarrow> nat list option" where
  "hexDigits [] = Some []"
| "hexDigits (c # cs) =
     (case hexDigit c of
        None \<Rightarrow> None
      | Some d \<Rightarrow> (case hexDigits cs of None \<Rightarrow> None | Some ds \<Rightarrow> Some (d # ds)))"

text \<open>
  An ObjectId is written as 24 hexadecimal digits; the store compares identifiers by
  value, so the model keeps the number the digits denote.
\<close>

definition castObjectId :: "string \<Rightarrow> oid option" where
  "castObjectId s =
     (if length s = 24
      then map_option (foldl (\<lambda>a d. 16 * a + d) 0) (hexDigits s)
      else None)"

text \<open>The request validator \<^verbatim>\<open>isMongoId()\<close>: 24 characters, all hexadecimal digits.\<close>

definition isMongoId :: "string \<Rightarrow> bool" where
  "isMongoId s = (length s = 24 \<and> list_all (\<lambda>c. hexDigit c \<noteq> None) s)"

definition isSpace :: "char \<Rightarrow> bool" where
  "isSpace c = ((of_char c :: nat) \<in> {9, 10, 11, 12, 13, 32, 160})"

definition trim :: "string \<Rightarrow> string" where
  "trim s = rev (dropWhile isSpace (rev (dropWhile isSpace s)))"

subsection \<open>Documents\<close>

record vote_doc =
  vid :: oid
  voter :: oid
  candidate :: oid
  position :: string
  ipAddress :: string
  userAgent :: string
  isValid :: bool
  createdAt :: time

text \<open>
  Of the Candidate's \<^verbatim>\<open>stats\<close> sub-document the model carries the three counters that
  are whole numbers and dates. \<^verbatim>\<open>stats.votePercentage\<close> (a floating-point quotient) and
  \<^verbatim>\<open>stats.positionRank\<close> (the index in an aggregation whose order among equal counts the
  store does not fix) are written by \<^verbatim>\<open>updateStats\<close> and read by no handler of the ledger.
\<close>

record candidate_stats =
  totalVotes :: int
  recentVotes :: int
  lastVoteDate :: "time option"

record candidate_doc =
  cid :: oid
  name :: string
  cposition :: string
  isActive :: bool
  voteCount :: int
  stats :: candidate_stats

record ledger =
  votes :: "vote_doc list"
  candidates :: "candidate_doc list"

datatype reply = Reply nat string

datatype db_error = ValidationError | DuplicateKey | ParallelSaveError

subsection \<open>The Vote collection\<close>

definition findVoteById :: "vote_doc list \<Rightarrow> oid \<Rightarrow> vote_doc option" where
  "findVoteById vs k = find (\<lambda>v. vid v = k) vs"

text \<open>\<^verbatim>\<open>Vote.findOne({ voter, position })\<close>: the validity flag is not part of the filter.\<close>

definition findVote :: "vote_doc list \<Rightarrow> oid \<Rightarrow> string \<Rightarrow> vote_doc option" where
  "findVote vs u p = find (\<lambda>v. voter v = u \<and> position v = trim p) vs"

definition countVotes :: "(vote_doc \<Rightarrow> bool) \<Rightarrow> vote_doc list \<Rightarrow> nat" where
  "countVotes P vs = length (filter P vs)"

text \<open>The \<^verbatim>\<open>required\<close> validators of the Vote schema; an empty string fails them.\<close>

definition validateVote :: "vote_doc \<Rightarrow> bool" where
  "validateVote v = (position v \<noteq> [] \<and> ipAddress v \<noteq> [] \<and> userAgent v \<noteq> [])"

text \<open>
  The unique indexes of the collection: the built-in one on \<^verbatim>\<open>_id\<close> and
  \<^verbatim>\<open>voteSchema.index({ voter: 1, position: 1 }, { unique: true })\<close>.
\<close>

definition uniqueViolation :: "vote_doc \<Rightarrow> vote_doc list \<Rightarrow> bool" where
  "uniqueViolation v vs =
     list_ex (\<lambda>w. vid w = vid v \<or> (voter w = voter v \<and> position w = position v)) vs"

definition insertVote :: "vote_doc \<Rightarrow> vote_doc list \<Rightarrow> db_error + vote_doc list" where
  "insertVote v vs =
     (if \<not> validateVote v then Inl ValidationError
      else if uniqueViolation v vs then Inl DuplicateKey
      else Inr (vs @ [v]))"

text \<open>
  Saving a document that is already stored replaces the stored one with its \<^verbatim>\<open>_id\<close>, the
  one that \<^verbatim>\<open>findById\<close> returns.
\<close>

fun updateVote :: "vote_doc \<Rightarrow> vote_doc list \<Rightarrow> vote_doc list" where
  "updateVote v [] = []"
| "updateVote v (w # ws) = (if vid w = vid v then v # ws else w # updateVote v ws)"

subsection \<open>The Candidate collection, \<^verbatim>\<open>updateStats\<close> and the \<^verbatim>\<open>pre('save')\<close> hook\<close>

definition findCandidateById :: "candidate_doc list \<Rightarrow> oid \<Rightarrow> candidate_doc option" where
  "findCandidateById cs k = find (\<lambda>c. cid c = k) cs"

definition sevenDays :: nat where
  "sevenDays = 7 * 24 * 60 * 60 * 1000"

fun latest :: "vote_doc list \<Rightarrow> time option" where
  "latest [] = None"
| "latest (v # vs) =
     (case latest vs of None \<Rightarrow> Some (createdAt v) | Some t \<Rightarrow> Some (max (createdAt v) t))"

text \<open>
  \<^verbatim>\<open>save()\<close> called on a document while a save of that document is in progress: the
  mapper rejects the call and writes nothing.
\<close>

definition parallelSave :: "candidate_doc \<Rightarrow> db_error + candidate_doc" where
  "parallelSave c = Inl ParallelSaveError"

text \<open>
  \<^verbatim>\<open>candidateSchema.methods.updateStats\<close>: every figure is recomputed from the Vote
  collection with the filter \<^verbatim>\<open>{ candidate: this._id }\<close>, the last assignment overwrites
  \<^verbatim>\<open>voteCount\<close> with the total, and the method ends with \<^verbatim>\<open>await this.save()\<close>. Its only
  caller is the \<^verbatim>\<open>pre('save')\<close> hook, so that \<^verbatim>\<open>save()\<close> is called while the save that
  started the hook is in progress.
\<close>

definition updateStats :: "time \<Rightarrow> vote_doc list \<Rightarrow> candidate_doc \<Rightarrow> db_error + candidate_doc" where
  "updateStats now vs c =
     (let mine = filter (\<lambda>v. candidate v = cid c) vs;
          total = int (length mine);
          recent = int (length (filter (\<lambda>v. int now - int sevenDays \<le> int (createdAt v)) mine))
      in parallelSave
           (c\<lparr>stats := \<lparr>totalVotes = total, recentVotes = recent, lastVoteDate = latest mine\<rparr>,
              voteCount := total\<rparr>))"

text \<open>
  The hook compares the document with the one that was loaded (\<^verbatim>\<open>isModified\<close>): it
  awaits \<^verbatim>\<open>updateStats\<close> when \<^verbatim>\<open>voteCount\<close> or \<^verbatim>\<open>stats\<close> was assigned a different value, and
  fails when \<^verbatim>\<open>updateStats\<close> fails.
\<close>

definition isModified :: "candidate_doc \<Rightarrow> candidate_doc \<Rightarrow> bool" where
  "isModified loaded c = (\<not> (voteCount c = voteCount loaded \<and> stats c = stats loaded))"

definition preSave ::
  "time \<Rightarrow> vote_doc list \<Rightarrow> candidate_doc \<Rightarrow> candidate_doc \<Rightarrow> db_error + candidate_doc" where
  "preSave now vs loaded c =
     (if isModified loaded c then updateStats now vs c else Inr c)"

fun updateCandidate :: "candidate_doc \<Rightarrow> candidate_doc list \<Rightarrow> candidate_doc list" where
  "updateCandidate c [] = []"
| "updateCandidate c (d # ds) = (if cid d = cid c then c # ds else d # updateCandidate c ds)"

text \<open>
  \<^verbatim>\<open>candidate.save()\<close> on a document that was loaded as \<open>loaded\<close> and then assigned to:
  the hook runs first; the document is written when the hook succeeds, and the save is
  rejected with the store untouched when it fails.
\<close>

definition saveCandidate ::
  "time \<Rightarrow> ledger \<Rightarrow> candidate_doc \<Rightarrow> candidate_doc \<Rightarrow> db_error + ledger" where
  "saveCandidate now s loaded c =
     (case preSave now (votes s) loaded c of
        Inl e \<Rightarrow> Inl e
      | Inr c' \<Rightarrow> Inr (s\<lparr>candidates := updateCandidate c' (candidates s)\<rparr>))"

subsection \<open>\<^verbatim>\<open>POST /votes\<close>\<close>

record vote_request =
  req_user :: oid
  req_candidateId :: string
  req_position :: string
  req_ip :: string
  req_userAgent :: "string option"
  req_now :: time
  req_newId :: oid

definition newVote :: "vote_request \<Rightarrow> oid \<Rightarrow> vote_doc" where
  "newVote r k =
     \<lparr>vid = req_newId r, voter = req_user r, candidate = k,
      position = trim (req_position r), ipAddress = req_ip r,
      userAgent = (case req_userAgent r of None \<Rightarrow> [] | Some u \<Rightarrow> u),
      isValid = True, createdAt = req_now r\<rparr>"

text \<open>
  The handler saves the Vote, then assigns \<^verbatim>\<open>candidate.voteCount += 1\<close> and saves the
  candidate; whatever is thrown on the way is caught and answered 500, with the writes
  already made left in the store.
\<close>

definition castVote :: "ledger \<Rightarrow> vote_request \<Rightarrow> reply \<times> ledger" where
  "castVote s r =
     (if \<not> (isMongoId (req_candidateId r) \<and> req_position r \<noteq> [])
      then (Reply 400 ''Validation failed'', s)
      else case castObjectId (req_candidateId r) of
        None \<Rightarrow> (Reply 500 ''Server error'', s)
      | Some k \<Rightarrow>
         (case findCandidateById (candidates s) k of
            None \<Rightarrow> (Reply 404 ''Candidate not found'', s)
          | Some c \<Rightarrow>
             if \<not> isActive c then (Reply 404 ''Candidate not found'', s)
             else (case findVote (votes s) (req_user r) (req_position r) of
                Some existingVote \<Rightarrow>
                  (Reply 400 ''You have already voted for this position'', s)
              | None \<Rightarrow>
                 (case insertVote (newVote r k) (votes s) of
                    Inl e \<Rightarrow> (Reply 500 ''Server error'', s)
                  | Inr vs \<Rightarrow>
                     (case saveCandidate (req_now r) (s\<lparr>votes := vs\<rparr>) c
                             (c\<lparr>voteCount := voteCount c + 1\<rparr>) of
                        Inl e \<Rightarrow> (Reply 500 ''Server error'', s\<lparr>votes := vs\<rparr>)
                      | Inr s' \<Rightarrow> (Reply 201 ''Vote submitted successfully'', s'))))))"

subsection \<open>\<^verbatim>\<open>PUT /votes/:id/invalidate\<close>\<close>

record invalidate_request =
  inv_role :: string
  inv_id :: string
  inv_now :: time

text \<open>
  An \<^verbatim>\<open>:id\<close> that is not an ObjectId makes \<^verbatim>\<open>findById\<close> throw; the handler answers 500.
  The Vote is saved with \<^verbatim>\<open>isValid = false\<close> before the candidate is loaded, assigned
  \<^verbatim>\<open>Math.max(0, candidate.voteCount - 1)\<close> and saved.
\<close>

definition invalidateVote :: "ledger \<Rightarrow> invalidate_request \<Rightarrow> reply \<times> ledger" where
  "invalidateVote s r =
     (if inv_role r \<noteq> ''admin'' then (Reply 403 ''Admin access required'', s)
      else case castObjectId (inv_id r) of
        None \<Rightarrow> (Reply 500 ''Server error'', s)
      | Some k \<Rightarrow>
         (case findVoteById (votes s) k of
            None \<Rightarrow> (Reply 404 ''Vote not found'', s)
          | Some v \<Rightarrow>
             (let s1 = s\<lparr>votes := updateVote (v\<lparr>isValid := False\<rparr>) (votes s)\<rparr>
              in case findCandidateById (candidates s1) (candidate v) of
                   None \<Rightarrow> (Reply 200 ''Vote invalidated successfully'', s1)
                 | Some c \<Rightarrow>
                    (case saveCandidate (inv_now r) s1 c
                            (c\<lparr>voteCount := max 0 (voteCount c - 1)\<rparr>) of
                       Inl e \<Rightarrow> (Reply 500 ''Server error'', s1)
                     | Inr s2 \<Rightarrow> (Reply 200 ''Vote invalidated successfully'', s2)))))"

subsection \<open>Sequences of ledger requests\<close>

datatype request = Cast vote_request | Invalidate invalidate_request

fun handle :: "ledger \<Rightarrow> request \<Rightarrow> reply \<times> ledger" where
  "handle s (Cast r) = castVote s r"
| "handle s (Invalidate r) = invalidateVote s r"

fun run :: "ledger \<Rightarrow> request list \<Rightarrow> ledger" where
  "run s [] = s"
| "run s (q # qs) = run (snd (handle s q)) qs"

fun replies :: "ledger \<Rightarrow> request list \<Rightarrow> reply list" where
  "replies s [] = []"
| "replies s (q # qs) = fst (handle s q) # replies (snd (handle s q)) qs"

subsection \<open>\<^verbatim>\<open>GET /votes/results/:position\<close>\<close>

text \<open>
  The handler computes \<^verbatim>\<open>((candidate.voteCount / totalVotes) * 100).toFixed(2)\<close>.
  JavaScript numbers are IEEE 754 doubles: a finite double is a whole number of at most 53
  bits times a power of two, and the pair \<open>(m, e)\<close> stands for \<open>m * 2 ^ e\<close>. A division or a
  multiplication gives the double nearest to the exact result, a tie going to the even
  mantissa. The counters and totals of the ledger are whole numbers below \<open>2 ^ 53\<close>, which
  are doubles themselves; the quotients and products taken from them are in the range of
  the normal doubles and below \<open>10 ^ 21\<close>, where \<^verbatim>\<open>toFixed\<close> changes its notation.
\<close>

type_synonym double = "int \<times> int"

definition dval :: "double \<Rightarrow> rat" where
  "dval d = of_int (fst d) * 2 powi snd d"

text \<open>The position of the leading bit of a positive whole number.\<close>

fun ilog2 :: "nat \<Rightarrow> nat" where
  "ilog2 n = (if n < 2 then 0 else Suc (ilog2 (n div 2)))"

declare ilog2.simps [simp del]

text \<open>The whole number nearest to \<open>p / q\<close>, for \<open>0 \<le> p\<close> and \<open>0 < q\<close>; a tie goes to the even one.\<close>

definition roundHalfEven :: "int \<Rightarrow> int \<Rightarrow> int" where
  "roundHalfEven p q =
     (let f = p div q; r = p mod q
      in if 2 * r < q then f else if q < 2 * r then f + 1 else if even f then f else f + 1)"

text \<open>
  The double nearest to \<open>a / b\<close> for positive \<open>a\<close> and \<open>b\<close>: \<open>e\<close> is the exponent of the
  leading bit of the quotient, and the mantissa is the quotient in units of \<open>2 ^ (e - 52)\<close>.
\<close>

definition nearestDouble :: "int \<Rightarrow> int \<Rightarrow> double" where
  "nearestDouble a b =
     (let e0 = int (ilog2 (nat a)) - int (ilog2 (nat b));
          e = (if (if 0 \<le> e0 then b * 2 ^ nat e0 \<le> a else b \<le> a * 2 ^ nat (- e0))
               then e0 else e0 - 1);
          u = e - 52
      in (if 0 \<le> u then roundHalfEven a (b * 2 ^ nat u) else roundHalfEven (a * 2 ^ nat (- u)) b,
          u))"

definition toDouble :: "int \<Rightarrow> int \<Rightarrow> double" where
  "toDouble a b =
     (if a = 0 then (0, 0)
      else (sgn a * fst (nearestDouble \<bar>a\<bar> b), snd (nearestDouble \<bar>a\<bar> b)))"

text \<open>\<^verbatim>\<open>c / n\<close> for a whole number \<open>c\<close> and a positive whole number \<open>n\<close>.\<close>

definition jsDivide :: "int \<Rightarrow> nat \<Rightarrow> double" where
  "jsDivide c n = toDouble c (int n)"

text \<open>\<^verbatim>\<open>d * k\<close> for a double \<open>d\<close> and a positive whole number \<open>k\<close>.\<close>

definition jsTimes :: "double \<Rightarrow> int \<Rightarrow> double" where
  "jsTimes d k =
     (if 0 \<le> snd d then toDouble (fst d * k * 2 ^ nat (snd d)) 1
      else toDouble (fst d * k) (2 ^ nat (- snd d)))"

text \<open>
  \<^verbatim>\<open>d.toFixed(2)\<close> is the decimal notation of \<open>k / 100\<close> for the whole number \<open>k\<close> nearest to
  \<open>100 * d\<close>, the larger one of two that are equally near (for a negative \<open>d\<close>: that of
  \<open>- d\<close>, after a minus sign). \<open>hundredths\<close> is this \<open>k\<close>.
\<close>

definition hundredths :: "double \<Rightarrow> int" where
  "hundredths d =
     sgn (fst d) *
       (if 0 \<le> snd d then 100 * \<bar>fst d\<bar> * 2 ^ nat (snd d)
        else (200 * \<bar>fst d\<bar> + 2 ^ nat (- snd d)) div 2 ^ nat (1 - snd d))"

fun decimal :: "nat \<Rightarrow> string" where
  "decimal n =
     (if n < 10 then [''0123456789'' ! n]
      else decimal (n div 10) @ [''0123456789'' ! (n mod 10)])"

declare decimal.simps [simp del]

definition showFixed2 :: "int \<Rightarrow> string" where
  "showFixed2 k =
     (if k < 0 then ''-'' else []) @ decimal (nat \<bar>k\<bar> div 100) @ ''.'' @
     [''0123456789'' ! (nat \<bar>k\<bar> div 10 mod 10), ''0123456789'' ! (nat \<bar>k\<bar> mod 10)]"

text \<open>
  The \<^verbatim>\<open>percentage\<close> of a row is the number 0 or a string that \<^verbatim>\<open>toFixed(2)\<close> returned;
  \<open>Fixed2 k\<close> is the string \<open>showFixed2 k\<close>, which denotes \<open>k / 100\<close>.
\<close>

datatype percent = Zero | Fixed2 int

definition render :: "percent \<Rightarrow> string" where
  "render q = (case q of Zero \<Rightarrow> ''0'' | Fixed2 k \<Rightarrow> showFixed2 k)"

definition numberOf :: "percent \<Rightarrow> rat" where
  "numberOf q = (case q of Zero \<Rightarrow> 0 | Fixed2 k \<Rightarrow> of_int k / 100)"

text \<open>
  The fields \<^verbatim>\<open>party\<close>, \<^verbatim>\<open>description\<close> and \<^verbatim>\<open>image\<close> of a row are copied from the candidate
  and left out here.
\<close>

record result_row =
  res_id :: oid
  res_name :: string
  res_voteCount :: int
  res_percentage :: percent

record results_reply =
  res_position :: string
  res_results :: "result_row list"
  res_totalVotes :: nat
  res_totalCandidates :: nat

text \<open>\<^verbatim>\<open>Candidate.find({ position, isActive: true }).sort({ voteCount: -1 })\<close>\<close>

definition activeCandidates :: "candidate_doc list \<Rightarrow> string \<Rightarrow> candidate_doc list" where
  "activeCandidates cs p =
     sort_key (\<lambda>c. - voteCount c) (filter (\<lambda>c. cposition c = trim p \<and> isActive c) cs)"

text \<open>\<^verbatim>\<open>totalVotes > 0 ? ((candidate.voteCount / totalVotes) * 100).toFixed(2) : 0\<close>\<close>

definition percentage :: "int \<Rightarrow> nat \<Rightarrow> percent" where
  "percentage c n = (if n > 0 then Fixed2 (hundredths (jsTimes (jsDivide c n) 100)) else Zero)"

definition resultsForPosition :: "ledger \<Rightarrow> string \<Rightarrow> results_reply" where
  "resultsForPosition s p =
     (let cands = activeCandidates (candidates s) p;
          total = countVotes (\<lambda>v. position v = trim p) (votes s)
      in \<lparr>res_position = p,
          res_results =
            map (\<lambda>c. \<lparr>res_id = cid c, res_name = name c, res_voteCount = voteCount c,
                       res_percentage = percentage (voteCount c) total\<rparr>) cands,
          res_totalVotes = total,
          res_totalCandidates = length cands\<rparr>)"

subsection \<open>\<^verbatim>\<open>GET /votes/history\<close>\<close>

text \<open>
  \<^verbatim>\<open>page\<close> and \<^verbatim>\<open>limit\<close> are query parameters with the defaults 1 and 10; the model
  takes them as whole numbers. The store skips before it limits, in whatever order the
  query names the two; it rejects a negative \<^verbatim>\<open>skip\<close>, reads \<^verbatim>\<open>limit(0)\<close> as no limit
  and a negative limit by its absolute value; \<^verbatim>\<open>Math.ceil(total / 0)\<close> is not a
  number and is sent as \<^verbatim>\<open>null\<close>. Votes created at the same instant keep their
  insertion order. \<^verbatim>\<open>populate\<close> only joins the candidate's name, position and party to
  each vote and is left out.
\<close>

record history_request =
  hist_user :: oid
  hist_page :: "int option"
  hist_limit :: "int option"

record history_reply =
  hist_votes :: "vote_doc list"
  hist_totalPages :: "int option"
  hist_currentPage :: int
  hist_total :: nat

definition ownVotes :: "vote_doc list \<Rightarrow> oid \<Rightarrow> vote_doc list" where
  "ownVotes vs u = sort_key (\<lambda>v. - int (createdAt v)) (filter (\<lambda>v. voter v = u) vs)"

definition votingHistory :: "ledger \<Rightarrow> history_request \<Rightarrow> reply + history_reply" where
  "votingHistory s r =
     (let page = (case hist_page r of None \<Rightarrow> 1 | Some p \<Rightarrow> p);
          limit = (case hist_limit r of None \<Rightarrow> 10 | Some l \<Rightarrow> l);
          skip = (page - 1) * limit;
          own = ownVotes (votes s) (hist_user r);
          total = countVotes (\<lambda>v. voter v = hist_user r) (votes s)
      in if skip < 0 then Inl (Reply 500 ''Server error'')
         else Inr \<lparr>hist_votes =
                     (if limit = 0 then drop (nat skip) own
                      else take (nat \<bar>limit\<bar>) (drop (nat skip) own)),
                   hist_totalPages =
                     (if limit = 0 then None
                      else Some \<lceil>(of_nat total :: rat) / of_int limit\<rceil>),
                   hist_currentPage = page,
                   hist_total = total\<rparr>)"

text \<open>The votes on a page, for a caller, a limit and a page number.\<close>

definition pageVotes :: "ledger \<Rightarrow> oid \<Rightarrow> int \<Rightarrow> int \<Rightarrow> vote_doc list" where
  "pageVotes s u limit page =
     (case votingHistory s \<lparr>hist_user = u, hist_page = Some page, hist_limit = Some limit\<rparr> of
        Inl e \<Rightarrow> []
      | Inr h \<Rightarrow> hist_votes h)"

subsection \<open>\<^verbatim>\<open>rateLimitAuth\<close>\<close>

record attempt =
  count :: nat
  resetTime :: time

type_synonym authAttempts = "string \<rightharpoonup> attempt"

definition windowMs :: nat where
  "windowMs = 15 * 60 * 1000"

definition maxAttempts :: nat where
  "maxAttempts = 5"

datatype verdict = Next | TooMany nat

text \<open>
  \<^verbatim>\<open>TooMany n\<close> is the 429 response with \<^verbatim>\<open>retryAfter = n\<close>, the seconds left in the
  window rounded up; \<^verbatim>\<open>Next\<close> hands the request to the route.
\<close>

definition rateLimitAuth :: "authAttempts \<Rightarrow> string \<Rightarrow> time \<Rightarrow> verdict \<times> authAttempts" where
  "rateLimitAuth m ip now =
     (let a0 = (case m ip of None \<Rightarrow> \<lparr>count = 0, resetTime = now + windowMs\<rparr> | Some a \<Rightarrow> a);
          a1 = (if now > resetTime a0 then \<lparr>count = 0, resetTime = now + windowMs\<rparr> else a0)
      in if count a1 \<ge> maxAttempts
         then (TooMany ((resetTime a1 - now + 999) div 1000), m(ip \<mapsto> a1))
         else (Next, m(ip \<mapsto> a1\<lparr>count := count a1 + 1\<rparr>)))"

text \<open>The timer that runs every minute deletes the entries whose window is over.\<close>

definition cleanup :: "authAttempts \<Rightarrow> time \<Rightarrow> authAttempts" where
  "cleanup m now = (\<lambda>ip. case m ip of
       None \<Rightarrow> None
     | Some a \<Rightarrow> if now > resetTime a then None else Some a)"

text \<open>The verdicts of consecutive requests from one address at the given times.\<close>

fun verdicts :: "authAttempts \<Rightarrow> string \<Rightarrow> time list \<Rightarrow> verdict list" where
  "verdicts m ip [] = []"
| "verdicts m ip (t # ts) =
     fst (rateLimitAuth m ip t) # verdicts (snd (rateLimitAuth m ip t)) ip ts"

text \<open>The table after those requests.\<close>

fun limiterAfter :: "authAttempts \<Rightarrow> string \<Rightarrow> time list \<Rightarrow> authAttempts" where
  "limiterAfter m ip [] = m"
| "limiterAfter m ip (t # ts) = limiterAfter (snd (rateLimitAuth m ip t)) ip ts"

subsection \<open>Predicates used in the statements\<close>

text \<open>The unique index on (voter, position) holds of a collection.\<close>

definition uniqueIndex :: "vote_doc list \<Rightarrow> bool" where
  "uniqueIndex vs = distinct (map (\<lambda>v. (voter v, position v)) vs)"

text \<open>
  A ballot that passes every check of \<^verbatim>\<open>POST /votes\<close> that comes before the look-up of an
  earlier vote: the candidate id is well formed, the position is not empty, and the id
  names an active candidate.
\<close>

definition reachesLookup :: "ledger \<Rightarrow> vote_request \<Rightarrow> bool" where
  "reachesLookup s r =
     (isMongoId (req_candidateId r) \<and> req_position r \<noteq> [] \<and>
      (case castObjectId (req_candidateId r) of
         None \<Rightarrow> False
       | Some k \<Rightarrow> (case findCandidateById (candidates s) k of
                      None \<Rightarrow> False
                    | Some c \<Rightarrow> isActive c)))"

text \<open>
  A ballot that passes those checks and whose Vote document passes the schema's
  validators: the position is not blank, and the request carries an address and a
  \<^verbatim>\<open>User-Agent\<close>.
\<close>

definition validBallot :: "ledger \<Rightarrow> vote_request \<Rightarrow> bool" where
  "validBallot s r =
     (isMongoId (req_candidateId r) \<and> trim (req_position r) \<noteq> [] \<and> req_ip r \<noteq> [] \<and>
      (case req_userAgent r of None \<Rightarrow> False | Some u \<Rightarrow> u \<noteq> []) \<and>
      (case castObjectId (req_candidateId r) of
         None \<Rightarrow> False
       | Some k \<Rightarrow> (case findCandidateById (candidates s) k of
                      None \<Rightarrow> False
                    | Some c \<Rightarrow> isActive c)))"

definition freshId :: "ledger \<Rightarrow> vote_request \<Rightarrow> bool" where
  "freshId s r = (\<not> list_ex (\<lambda>w. vid w = req_newId r) (votes s))"

definition created :: reply where
  "created = Reply 201 ''Vote submitted successfully''"

definition duplicateVote :: reply where
  "duplicateVote = Reply 400 ''You have already voted for this position''"

definition serverError :: reply where
  "serverError = Reply 500 ''Server error''"

definition invalidated :: reply where
  "invalidated = Reply 200 ''Vote invalidated successfully''"


subsection \<open>A small election\<close>

text \<open>Two candidates for President, no votes yet; the data of the evaluated examples.\<close>

definition ada :: candidate_doc where
  "ada = \<lparr>cid = 1, name = ''Ada'', cposition = ''President'', isActive = True, voteCount = 0,
          stats = \<lparr>totalVotes = 0, recentVotes = 0, lastVoteDate = None\<rparr>\<rparr>"

definition bob :: candidate_doc where
  "bob = \<lparr>cid = 2, name = ''Bob'', cposition = ''President'', isActive = True, voteCount = 0,
          stats = \<lparr>totalVotes = 0, recentVotes = 0, lastVoteDate = None\<rparr>\<rparr>"

definition ledger0 :: ledger where
  "ledger0 = \<lparr>votes = [], candidates = [ada, bob]\<rparr>"

definition ballot :: "oid \<Rightarrow> string \<Rightarrow> string \<Rightarrow> time \<Rightarrow> oid \<Rightarrow> vote_request" where
  "ballot u c p t i =
     \<lparr>req_user = u, req_candidateId = c, req_position = p, req_ip = ''10.0.0.1'',
      req_userAgent = Some ''Mozilla/5.0'', req_now = t, req_newId = i\<rparr>"

definition adaId :: string where "adaId = ''000000000000000000000001''"

definition bobId :: string where "bobId = ''000000000000000000000002''"

definition firstVote :: invalidate_request where
  "firstVote = \<lparr>inv_role = ''admin'', inv_id = ''000000000000000000000064'', inv_now = 5000\<rparr>"

definition someVote :: "oid \<Rightarrow> oid \<Rightarrow> string \<Rightarrow> time \<Rightarrow> vote_doc" where
  "someVote i u p t =
     \<lparr>vid = i, voter = u, candidate = 1, position = p, ipAddress = ''10.0.0.1'',
      userAgent = ''Mozilla/5.0'', isValid = True, createdAt = t\<rparr>"

text \<open>The ledger after the first ballot: voter 7 for Ada.\<close>

definition ledger1 :: ledger where
  "ledger1 = snd (castVote ledger0 (ballot 7 adaId ''President'' 1000 100))"

definition ledgerHistory :: ledger where
  "ledgerHistory =
     \<lparr>votes = [someVote 100 7 ''President'' 1000, someVote 101 8 ''President'' 2000,
               someVote 102 7 ''Mayor'' 3000, someVote 103 7 ''Treasurer'' 2500],
      candidates = [ada, bob]\<rparr>"

text \<open>
  Stores whose counters are not 0, given as they stand: \<open>nominee\<close> is a candidate for
  President with a counter, \<open>voteFor\<close> a valid vote for President.
\<close>

definition nominee :: "oid \<Rightarrow> string \<Rightarrow> bool \<Rightarrow> int \<Rightarrow> candidate_doc" where
  "nominee i n a c =
     \<lparr>cid = i, name = n, cposition = ''President'', isActive = a, voteCount = c,
      stats = \<lparr>totalVotes = c, recentVotes = c, lastVoteDate = None\<rparr>\<rparr>"

definition voteFor :: "oid \<Rightarrow> oid \<Rightarrow> oid \<Rightarrow> vote_doc" where
  "voteFor i u k =
     \<lparr>vid = i, voter = u, candidate = k, position = ''President'', ipAddress = ''10.0.0.1'',
      userAgent = ''Mozilla/5.0'', isValid = True, createdAt = 1000\<rparr>"

text \<open>One vote each for Ada and Bob; Bob has been deactivated since.\<close>

definition ledgerWithdrawn :: ledger where
  "ledgerWithdrawn =
     \<lparr>votes = [voteFor 100 7 1, voteFor 101 8 2],
      candidates = [nominee 1 ''Ada'' True 1, nominee 2 ''Bob'' False 1]\<rparr>"

text \<open>One vote each for three active candidates.\<close>

definition ledgerThree :: ledger where
  "ledgerThree =
     \<lparr>votes = [voteFor 100 7 1, voteFor 101 8 2, voteFor 102 9 3],
      candidates = [nominee 1 ''Ada'' True 1, nominee 2 ''Bob'' True 1, nominee 3 ''Cy'' True 1]\<rparr>"

section \<open>Properties\<close>

subsection \<open>The rate limiter\<close>

lemma rateLimitAuth_opens_window:
  assumes "m ip = None \<or> (\<exists>a. m ip = Some a \<and> resetTime a < now)"
  shows "rateLimitAuth m ip now = (Next, m(ip \<mapsto> \<lparr>count = 1, resetTime = now + windowMs\<rparr>))"
  using assms by (auto simp: rateLimitAuth_def maxAttempts_def Let_def)

lemma rateLimitAuth_counts:
  assumes "m ip = Some a" "now \<le> resetTime a" "count a < maxAttempts"
  shows "rateLimitAuth m ip now = (Next, m(ip \<mapsto> a\<lparr>count := count a + 1\<rparr>))"
  using assms by (simp add: rateLimitAuth_def Let_def)

lemma rateLimitAuth_blocks:
  assumes "m ip = Some a" "now \<le> resetTime a" "maxAttempts \<le> count a"
  shows "rateLimitAuth m ip now = (TooMany ((resetTime a - now + 999) div 1000), m)"
  using assms by (simp add: rateLimitAuth_def Let_def fun_upd_idem)

lemma rateLimitAuth_other:
  "ip' \<noteq> ip \<Longrightarrow> snd (rateLimitAuth m ip now) ip' = m ip'"
  by (simp add: rateLimitAuth_def Let_def)

lemma limiterAfter_other:
  "ip' \<noteq> ip \<Longrightarrow> limiterAfter m ip ts ip' = m ip'"
  by (induction ts arbitrary: m) (simp_all add: rateLimitAuth_other)

lemma verdicts_in_window:
  assumes "m ip = Some \<lparr>count = c, resetTime = R\<rparr>" "list_all (\<lambda>t. t \<le> R) ts"
  shows "verdicts m ip ts =
           replicate (min (length ts) (maxAttempts - c)) Next @
           map (\<lambda>t. TooMany ((R - t + 999) div 1000)) (drop (maxAttempts - c) ts)"
  using assms
proof (induction ts arbitrary: m c)
  case Nil
  then show ?case by simp
next
  case (Cons t ts)
  show ?case
  proof (cases "c < maxAttempts")
    case True
    let ?m = "m(ip \<mapsto> \<lparr>count = c + 1, resetTime = R\<rparr>)"
    have step: "rateLimitAuth m ip t = (Next, ?m)"
      using Cons.prems True rateLimitAuth_counts[of m ip "\<lparr>count = c, resetTime = R\<rparr>" t] by simp
    have ih: "verdicts ?m ip ts =
           replicate (min (length ts) (maxAttempts - (c + 1))) Next @
           map (\<lambda>t. TooMany ((R - t + 999) div 1000)) (drop (maxAttempts - (c + 1)) ts)"
      using Cons.prems by (intro Cons.IH) simp_all
    obtain k where k: "maxAttempts - c = Suc k"
      using True by (cases "maxAttempts - c") auto
    then have k': "maxAttempts - (c + 1) = k" by simp
    show ?thesis unfolding verdicts.simps step fst_conv snd_conv ih k k' by simp
  next
    case False
    have step: "rateLimitAuth m ip t = (TooMany ((R - t + 999) div 1000), m)"
      using Cons.prems False rateLimitAuth_blocks[of m ip "\<lparr>count = c, resetTime = R\<rparr>" t] by simp
    have ih: "verdicts m ip ts =
           replicate (min (length ts) (maxAttempts - c)) Next @
           map (\<lambda>t. TooMany ((R - t + 999) div 1000)) (drop (maxAttempts - c) ts)"
      using Cons.prems by (intro Cons.IH) simp_all
    have z: "maxAttempts - c = 0" using False by simp
    show ?thesis unfolding verdicts.simps step fst_conv snd_conv ih z by simp
  qed
qed

lemma limiterAfter_in_window:
  assumes "m ip = Some \<lparr>count = c, resetTime = R\<rparr>" "list_all (\<lambda>t. t \<le> R) ts"
  shows "\<exists>c'. limiterAfter m ip ts ip = Some \<lparr>count = c', resetTime = R\<rparr>"
  using assms
proof (induction ts arbitrary: m c)
  case Nil
  then show ?case by simp
next
  case (Cons t ts)
  show ?case
  proof (cases "c < maxAttempts")
    case True
    let ?m = "m(ip \<mapsto> \<lparr>count = c + 1, resetTime = R\<rparr>)"
    have step: "rateLimitAuth m ip t = (Next, ?m)"
      using Cons.prems True rateLimitAuth_counts[of m ip "\<lparr>count = c, resetTime = R\<rparr>" t] by simp
    have "\<exists>c'. limiterAfter ?m ip ts ip = Some \<lparr>count = c', resetTime = R\<rparr>"
      using Cons.prems by (intro Cons.IH[of ?m "c + 1"]) simp_all
    then show ?thesis by (simp add: step)
  next
    case False
    have step: "rateLimitAuth m ip t = (TooMany ((R - t + 999) div 1000), m)"
      using Cons.prems False rateLimitAuth_blocks[of m ip "\<lparr>count = c, resetTime = R\<rparr>" t] by simp
    have "\<exists>c'. limiterAfter m ip ts ip = Some \<lparr>count = c', resetTime = R\<rparr>"
      using Cons.prems by (intro Cons.IH[of m c]) simp_all
    then show ?thesis by (simp add: step)
  qed
qed

lemma cleanup_keeps_verdict:
  assumes "now' \<le> now"
  shows "fst (rateLimitAuth (cleanup m now') ip now) = fst (rateLimitAuth m ip now)"
  using assms by (auto simp: rateLimitAuth_def cleanup_def Let_def split: option.splits)

text \<open>
  Claim C8. The limiter is a fixed-window counter keyed by the client address. A request
  at \<open>t0\<close> from an address with no entry, or with an entry whose window is over, opens a
  window that lasts until \<open>t0 + windowMs\<close> (15 minutes). Of the requests from that
  address up to the end of that window, that first one included, the first
  \<open>maxAttempts\<close> (5) are passed on and every further one is answered 429. A request
  after the end of the window is passed on again. The entries of other addresses are
  not touched.
\<close>

theorem rateLimitAuth_fixed_window:
  assumes fresh: "m ip = None \<or> (\<exists>a. m ip = Some a \<and> resetTime a < t0)"
      and inside: "list_all (\<lambda>t. t \<le> t0 + windowMs) ts"
  shows "verdicts m ip (t0 # ts) =
           replicate (min (Suc (length ts)) maxAttempts) Next @
           map (\<lambda>t. TooMany ((t0 + windowMs - t + 999) div 1000)) (drop (maxAttempts - 1) ts)
         \<and> (\<forall>t'. t0 + windowMs < t' \<longrightarrow>
               fst (rateLimitAuth (limiterAfter m ip (t0 # ts)) ip t') = Next)
         \<and> (\<forall>ip'. ip' \<noteq> ip \<longrightarrow> limiterAfter m ip (t0 # ts) ip' = m ip')"
proof -
  let ?m = "m(ip \<mapsto> \<lparr>count = 1, resetTime = t0 + windowMs\<rparr>)"
  have step: "rateLimitAuth m ip t0 = (Next, ?m)"
    using fresh by (rule rateLimitAuth_opens_window)
  have v: "verdicts ?m ip ts =
           replicate (min (length ts) (maxAttempts - 1)) Next @
           map (\<lambda>t. TooMany ((t0 + windowMs - t + 999) div 1000)) (drop (maxAttempts - 1) ts)"
    using inside by (intro verdicts_in_window) simp_all
  have one: "verdicts m ip (t0 # ts) =
           replicate (min (Suc (length ts)) maxAttempts) Next @
           map (\<lambda>t. TooMany ((t0 + windowMs - t + 999) div 1000)) (drop (maxAttempts - 1) ts)"
    unfolding verdicts.simps step fst_conv snd_conv v by (simp add: maxAttempts_def)
  obtain c' where fin: "limiterAfter ?m ip ts ip = Some \<lparr>count = c', resetTime = t0 + windowMs\<rparr>"
    using limiterAfter_in_window[of ?m ip 1 "t0 + windowMs" ts] inside by auto
  have two: "\<forall>t'. t0 + windowMs < t' \<longrightarrow>
               fst (rateLimitAuth (limiterAfter m ip (t0 # ts)) ip t') = Next"
  proof (intro allI impI)
    fix t' assume "t0 + windowMs < t'"
    then have "rateLimitAuth (limiterAfter ?m ip ts) ip t' =
        (Next, (limiterAfter ?m ip ts)(ip \<mapsto> \<lparr>count = 1, resetTime = t' + windowMs\<rparr>))"
      using fin by (intro rateLimitAuth_opens_window) simp
    then show "fst (rateLimitAuth (limiterAfter m ip (t0 # ts)) ip t') = Next"
      by (simp add: step)
  qed
  have three: "\<forall>ip'. ip' \<noteq> ip \<longrightarrow> limiterAfter m ip (t0 # ts) ip' = m ip'"
    by (simp add: limiterAfter_other del: limiterAfter.simps)
  from one two three show ?thesis by blast
qed

theorem rateLimitAuth_fixed_window_witness:
  "verdicts Map.empty ''10.0.0.1'' [0, 1, 2, 3, 900000, 900000, 4] =
     [Next, Next, Next, Next, Next, TooMany 0, TooMany 900]
   \<and> fst (rateLimitAuth (limiterAfter Map.empty ''10.0.0.1'' [0, 1, 2, 3, 900000, 900000, 4])
        ''10.0.0.1'' 900001) = Next
   \<and> limiterAfter Map.empty ''10.0.0.1'' [0, 1, 2, 3, 900000, 900000, 4] ''10.0.0.2'' = None"
  using rateLimitAuth_fixed_window [of Map.empty "''10.0.0.1''" 0 "[1, 2, 3, 900000, 900000, 4]"]
  by (simp add: windowMs_def maxAttempts_def)

subsection \<open>Identifiers and stores\<close>

lemma hexDigits_all:
  "list_all (\<lambda>c. hexDigit c \<noteq> None) s \<Longrightarrow> \<exists>ds. hexDigits s = Some ds"
  by (induction s) auto

lemma isMongoId_cast: "isMongoId s \<Longrightarrow> \<exists>k. castObjectId s = Some k"
  using hexDigits_all[of s] by (auto simp: isMongoId_def castObjectId_def)

lemma trim_nonempty: "trim p \<noteq> [] \<Longrightarrow> p \<noteq> []"
  by (auto simp: trim_def)

lemma findVote_None_iff:
  "findVote vs u p = None \<longleftrightarrow> \<not> list_ex (\<lambda>v. voter v = u \<and> position v = trim p) vs"
  by (auto simp add: findVote_def find_None_iff list_ex_iff)

lemma findCandidateById_cid: "findCandidateById cs k = Some c \<Longrightarrow> cid c = k"
  by (auto simp: findCandidateById_def find_Some_iff)

lemma findVoteById_vid: "findVoteById vs k = Some v \<Longrightarrow> vid v = k"
  by (auto simp: findVoteById_def find_Some_iff)

lemma updateCandidate_same:
  "findCandidateById cs (cid c) = Some c \<Longrightarrow> updateCandidate c cs = cs"
  by (induction cs) (auto simp: findCandidateById_def)

lemma map_updateVote:
  assumes "findVoteById vs (vid v) = Some w" "f v = f w"
  shows "map f (updateVote v vs) = map f vs"
  using assms by (induction vs) (auto simp: findVoteById_def)

lemma find_updateVote:
  "findVoteById (updateVote v vs) j =
     (if j = vid v \<and> findVoteById vs j \<noteq> None then Some v else findVoteById vs j)"
  by (induction vs) (auto simp: findVoteById_def)


subsection \<open>Saving a candidate\<close>

text \<open>
  A save that finds \<^verbatim>\<open>voteCount\<close> or \<^verbatim>\<open>stats\<close> modified is rejected; any other save writes
  the document.
\<close>

lemma saveCandidate_cases:
  "saveCandidate now s loaded c =
     (if isModified loaded c then Inl ParallelSaveError
      else Inr (s\<lparr>candidates := updateCandidate c (candidates s)\<rparr>))"
  by (simp add: saveCandidate_def preSave_def updateStats_def parallelSave_def Let_def)

lemma saveCandidate_rejected:
  "voteCount c \<noteq> voteCount loaded \<Longrightarrow> saveCandidate now s loaded c = Inl ParallelSaveError"
  by (simp add: saveCandidate_cases isModified_def)

lemma saveCandidate_increment:
  "saveCandidate now s c (c\<lparr>voteCount := voteCount c + 1\<rparr>) = Inl ParallelSaveError"
  by (simp add: saveCandidate_cases isModified_def)

lemma saveCandidate_decrement:
  assumes "findCandidateById (candidates s) k = Some c"
  shows "saveCandidate now s c (c\<lparr>voteCount := max 0 (voteCount c - 1)\<rparr>) =
           (if voteCount c = 0 then Inr s else Inl ParallelSaveError)"
proof (cases "voteCount c = 0")
  case True
  then have same: "c\<lparr>voteCount := max 0 (voteCount c - 1)\<rparr> = c" by simp
  have "cid c = k" using assms by (rule findCandidateById_cid)
  then have "updateCandidate c (candidates s) = candidates s"
    using assms by (intro updateCandidate_same) simp
  then show ?thesis unfolding same using True by (simp add: saveCandidate_cases isModified_def)
next
  case False
  then have "max 0 (voteCount c - 1) \<noteq> voteCount c" by auto
  then show ?thesis using False by (simp add: saveCandidate_cases isModified_def)
qed

subsection \<open>The two writing handlers, case by case\<close>

lemma validBallot_reachesLookup: "validBallot s r \<Longrightarrow> reachesLookup s r"
  using trim_nonempty[of "req_position r"] by (simp add: validBallot_def reachesLookup_def)

lemma castVote_duplicate:
  assumes "reachesLookup s r" "findVote (votes s) (req_user r) (req_position r) = Some v"
  shows "castVote s r = (duplicateVote, s)"
  using assms
  by (auto simp: castVote_def reachesLookup_def duplicateVote_def split: option.splits)

lemma castVote_stored:
  assumes "validBallot s r" "findVote (votes s) (req_user r) (req_position r) = None" "freshId s r"
  shows "\<exists>k. castObjectId (req_candidateId r) = Some k \<and>
           castVote s r = (serverError, s\<lparr>votes := votes s @ [newVote r k]\<rparr>)"
proof -
  from assms(1) obtain k c u where k: "castObjectId (req_candidateId r) = Some k"
    and c: "findCandidateById (candidates s) k = Some c" "isActive c"
    and v: "isMongoId (req_candidateId r)" "trim (req_position r) \<noteq> []" "req_ip r \<noteq> []"
           "req_userAgent r = Some u" "u \<noteq> []"
    by (auto simp: validBallot_def split: option.splits)
  have p: "req_position r \<noteq> []" using v(2) by (rule trim_nonempty)
  have val: "validateVote (newVote r k)"
    using v by (simp add: validateVote_def newVote_def)
  have nodup: "\<not> uniqueViolation (newVote r k) (votes s)"
    using assms(2,3) by (auto simp: uniqueViolation_def newVote_def findVote_None_iff freshId_def list_ex_iff)
  have "insertVote (newVote r k) (votes s) = Inr (votes s @ [newVote r k])"
    using val nodup by (simp add: insertVote_def)
  then show ?thesis
    using k c v(1) p assms(2) by (simp add: castVote_def serverError_def saveCandidate_increment)
qed

lemma castVote_not_created: "fst (castVote s r) \<noteq> created"
  by (simp add: castVote_def created_def saveCandidate_increment split: option.splits sum.splits)

lemma castVote_replies:
  "fst (castVote s r) \<in>
     {Reply 400 ''Validation failed'', Reply 404 ''Candidate not found'', duplicateVote,
      serverError}"
  by (simp add: castVote_def duplicateVote_def serverError_def saveCandidate_increment
      split: option.splits sum.splits)

lemma castVote_candidates: "candidates (snd (castVote s r)) = candidates s"
  by (simp add: castVote_def saveCandidate_increment split: option.splits sum.splits)

lemma castVote_votes:
  "votes (snd (castVote s r)) = votes s \<or>
   (\<exists>k. castObjectId (req_candidateId r) = Some k \<and> fst (castVote s r) = serverError \<and>
      findVote (votes s) (req_user r) (req_position r) = None \<and>
      votes (snd (castVote s r)) = votes s @ [newVote r k])"
  by (auto simp: castVote_def saveCandidate_increment serverError_def insertVote_def
      split: option.splits sum.splits if_splits)

lemma castVote_taken:
  assumes "list_ex (\<lambda>w. voter w = req_user r \<and> position w = trim (req_position r)) (votes s)"
  shows "snd (castVote s r) = s" "reachesLookup s r \<Longrightarrow> fst (castVote s r) = duplicateVote"
proof -
  have some: "findVote (votes s) (req_user r) (req_position r) \<noteq> None"
    using assms by (simp add: findVote_None_iff)
  then show "snd (castVote s r) = s"
    by (auto simp: castVote_def split: option.splits)
  show "reachesLookup s r \<Longrightarrow> fst (castVote s r) = duplicateVote"
    using some castVote_duplicate[of s r] by auto
qed

lemma invalidateVote_found:
  assumes "inv_role r = ''admin''" "castObjectId (inv_id r) = Some k"
      and "findVoteById (votes s) k = Some v"
  shows "snd (invalidateVote s r) = s\<lparr>votes := updateVote (v\<lparr>isValid := False\<rparr>) (votes s)\<rparr>"
    and "findCandidateById (candidates s) (candidate v) = None \<Longrightarrow>
           fst (invalidateVote s r) = invalidated"
    and "findCandidateById (candidates s) (candidate v) = Some c \<Longrightarrow>
           fst (invalidateVote s r) = (if voteCount c = 0 then invalidated else serverError)"
proof -
  let ?s1 = "s\<lparr>votes := updateVote (v\<lparr>isValid := False\<rparr>) (votes s)\<rparr>"
  have sv: "\<And>c. findCandidateById (candidates s) (candidate v) = Some c \<Longrightarrow>
      saveCandidate (inv_now r) ?s1 c (c\<lparr>voteCount := max 0 (voteCount c - 1)\<rparr>) =
        (if voteCount c = 0 then Inr ?s1 else Inl ParallelSaveError)"
    by (rule saveCandidate_decrement) simp
  show "snd (invalidateVote s r) = ?s1"
    using assms sv
    by (cases "findCandidateById (candidates s) (candidate v)")
       (simp_all add: invalidateVote_def Let_def)
  show "findCandidateById (candidates s) (candidate v) = None \<Longrightarrow>
           fst (invalidateVote s r) = invalidated"
    using assms by (simp add: invalidateVote_def Let_def invalidated_def)
  show "findCandidateById (candidates s) (candidate v) = Some c \<Longrightarrow>
           fst (invalidateVote s r) = (if voteCount c = 0 then invalidated else serverError)"
    using assms sv[of c] by (simp add: invalidateVote_def Let_def invalidated_def serverError_def)
qed

lemma invalidateVote_votes:
  "votes (snd (invalidateVote s r)) = votes s \<or>
   (\<exists>k v. castObjectId (inv_id r) = Some k \<and> findVoteById (votes s) k = Some v \<and>
      inv_role r = ''admin'' \<and>
      votes (snd (invalidateVote s r)) = updateVote (v\<lparr>isValid := False\<rparr>) (votes s))"
proof (cases "inv_role r = ''admin''")
  case False
  then show ?thesis by (simp add: invalidateVote_def)
next
  case True
  show ?thesis
  proof (cases "castObjectId (inv_id r)")
    case None
    then show ?thesis using True by (simp add: invalidateVote_def)
  next
    case (Some k)
    show ?thesis
    proof (cases "findVoteById (votes s) k")
      case None
      then show ?thesis using True Some by (simp add: invalidateVote_def)
    next
      case (Some v)
      then show ?thesis using True \<open>castObjectId (inv_id r) = Some k\<close>
        by (simp add: invalidateVote_found(1))
    qed
  qed
qed

lemma invalidateVote_candidates: "candidates (snd (invalidateVote s r)) = candidates s"
proof (cases "inv_role r = ''admin''")
  case False
  then show ?thesis by (simp add: invalidateVote_def)
next
  case True
  show ?thesis
  proof (cases "castObjectId (inv_id r)")
    case None
    then show ?thesis using True by (simp add: invalidateVote_def)
  next
    case (Some k)
    show ?thesis
    proof (cases "findVoteById (votes s) k")
      case None
      then show ?thesis using True Some by (simp add: invalidateVote_def)
    next
      case (Some v)
      then show ?thesis using True \<open>castObjectId (inv_id r) = Some k\<close>
        by (simp add: invalidateVote_found(1))
    qed
  qed
qed

lemma invalidateVote_rejected:
  assumes "inv_role r = ''admin''" "castObjectId (inv_id r) = Some k"
      and "findVoteById (votes s) k = Some v"
      and "findCandidateById (candidates s) (candidate v) = Some c" "voteCount c \<noteq> 0"
  shows "invalidateVote s r =
           (serverError, s\<lparr>votes := updateVote (v\<lparr>isValid := False\<rparr>) (votes s)\<rparr>)"
  using invalidateVote_found(1,3)[OF assms(1-3)] assms(4,5) by (simp add: prod_eq_iff)

lemma invalidateVote_accepted:
  assumes "inv_role r = ''admin''" "castObjectId (inv_id r) = Some k"
      and "findVoteById (votes s) k = Some v"
      and "findCandidateById (candidates s) (candidate v) = Some c" "voteCount c = 0"
  shows "invalidateVote s r =
           (invalidated, s\<lparr>votes := updateVote (v\<lparr>isValid := False\<rparr>) (votes s)\<rparr>)"
  using invalidateVote_found(1,3)[OF assms(1-3)] assms(4,5) by (simp add: prod_eq_iff)


subsection \<open>What a request leaves alone\<close>

lemma invalidateVote_map:
  assumes "\<And>v. f (v\<lparr>isValid := False\<rparr>) = f v"
  shows "map f (votes (snd (invalidateVote s r))) = map f (votes s)"
proof -
  { fix k v assume "findVoteById (votes s) k = Some v"
    then have "map f (updateVote (v\<lparr>isValid := False\<rparr>) (votes s)) = map f (votes s)"
      using findVoteById_vid[of "votes s" k v] assms
      by (intro map_updateVote[where w = v]) simp_all }
  then show ?thesis using invalidateVote_votes[of s r] by auto
qed

lemma handle_candidates: "candidates (snd (handle s q)) = candidates s"
  by (cases q) (simp_all add: castVote_candidates invalidateVote_candidates)

lemma run_candidates: "candidates (run s qs) = candidates s"
  by (induction qs arbitrary: s) (simp_all add: handle_candidates)

lemma reachesLookup_run: "reachesLookup (run s qs) r = reachesLookup s r"
  by (simp add: reachesLookup_def run_candidates split: option.splits)

lemma validBallot_run: "validBallot (run s qs) r = validBallot s r"
  by (simp add: validBallot_def run_candidates split: option.splits)


lemma list_ex_key:
  "list_ex (\<lambda>v. voter v = u \<and> position v = p) vs \<longleftrightarrow>
     (u, p) \<in> set (map (\<lambda>v. (voter v, position v)) vs)"
  by (auto simp: list_ex_iff)

lemma handle_keys:
  "\<exists>ks. map (\<lambda>v. (voter v, position v)) (votes (snd (handle s q))) =
         map (\<lambda>v. (voter v, position v)) (votes s) @ ks"
proof (cases q)
  case (Cast r)
  then show ?thesis using castVote_votes[of s r] by auto
next
  case (Invalidate r)
  then show ?thesis by (simp add: invalidateVote_map)
qed

lemma run_keys:
  "\<exists>ks. map (\<lambda>v. (voter v, position v)) (votes (run s qs)) =
         map (\<lambda>v. (voter v, position v)) (votes s) @ ks"
proof (induction qs arbitrary: s)
  case Nil
  then show ?case by simp
next
  case (Cons q qs)
  obtain ks where a: "map (\<lambda>v. (voter v, position v)) (votes (snd (handle s q))) =
         map (\<lambda>v. (voter v, position v)) (votes s) @ ks"
    using handle_keys by blast
  obtain ks' where b: "map (\<lambda>v. (voter v, position v)) (votes (run (snd (handle s q)) qs)) =
         map (\<lambda>v. (voter v, position v)) (votes (snd (handle s q))) @ ks'"
    using Cons.IH by blast
  show ?case by (simp add: a b)
qed

lemma run_keeps_vote:
  assumes "list_ex (\<lambda>v. voter v = u \<and> position v = p) (votes s)"
  shows "list_ex (\<lambda>v. voter v = u \<and> position v = p) (votes (run s qs))"
proof -
  obtain ks where "map (\<lambda>v. (voter v, position v)) (votes (run s qs)) =
         map (\<lambda>v. (voter v, position v)) (votes s) @ ks"
    using run_keys by blast
  then show ?thesis using assms unfolding list_ex_key by simp
qed

subsection \<open>The small election, evaluated\<close>

lemma cast_adaId: "castObjectId adaId = Some 1"
  by (simp add: adaId_def castObjectId_def hexDigit_def)

lemma cast_bobId: "castObjectId bobId = Some 2"
  by (simp add: bobId_def castObjectId_def hexDigit_def)

lemma mongo_adaId: "isMongoId adaId"
  by (simp add: adaId_def isMongoId_def hexDigit_def)

lemma mongo_bobId: "isMongoId bobId"
  by (simp add: bobId_def isMongoId_def hexDigit_def)

lemma trim_President: "trim ''President'' = ''President''"
  by (simp add: trim_def isSpace_def)

lemma trim_Mayor: "trim ''Mayor'' = ''Mayor''"
  by (simp_all add: trim_def isSpace_def)

lemma cast_firstVote: "castObjectId (inv_id firstVote) = Some 100"
  by (simp add: firstVote_def castObjectId_def hexDigit_def)

lemma validBallot_candidates:
  "candidates s = [ada, bob] \<Longrightarrow> validBallot s (ballot u adaId ''President'' t i)"
  "candidates s = [ada, bob] \<Longrightarrow> validBallot s (ballot u bobId ''President'' t i)"
  "candidates s = [ada, bob] \<Longrightarrow> validBallot s (ballot u adaId ''Mayor'' t i)"
  by (simp_all add: validBallot_def ballot_def ada_def bob_def mongo_adaId mongo_bobId
      cast_adaId cast_bobId trim_President trim_Mayor findCandidateById_def)

lemma castVote_ledger0:
  "castVote ledger0 (ballot 7 adaId ''President'' 1000 100) =
     (serverError, \<lparr>votes = [someVote 100 7 ''President'' 1000], candidates = [ada, bob]\<rparr>)"
proof -
  let ?b = "ballot 7 adaId ''President'' 1000 100"
  have "validBallot ledger0 ?b" by (rule validBallot_candidates) (simp add: ledger0_def)
  moreover have "findVote (votes ledger0) (req_user ?b) (req_position ?b) = None"
    by (simp add: ledger0_def findVote_def)
  moreover have "freshId ledger0 ?b" by (simp add: ledger0_def freshId_def)
  ultimately obtain k where "castObjectId (req_candidateId ?b) = Some k"
     "castVote ledger0 ?b = (serverError, ledger0\<lparr>votes := votes ledger0 @ [newVote ?b k]\<rparr>)"
    using castVote_stored by blast
  then show ?thesis
    by (simp add: ballot_def cast_adaId ledger0_def newVote_def someVote_def trim_President)
qed

lemma ledger1_eq:
  "ledger1 = \<lparr>votes = [someVote 100 7 ''President'' 1000], candidates = [ada, bob]\<rparr>"
  by (simp add: ledger1_def castVote_ledger0)

lemma invalidate_ledger1:
  "invalidateVote ledger1 firstVote =
     (invalidated,
      \<lparr>votes = [(someVote 100 7 ''President'' 1000)\<lparr>isValid := False\<rparr>], candidates = [ada, bob]\<rparr>)"
proof -
  have r: "inv_role firstVote = ''admin''" by (simp add: firstVote_def)
  have v: "findVoteById (votes ledger1) 100 = Some (someVote 100 7 ''President'' 1000)"
    by (simp add: ledger1_eq findVoteById_def someVote_def)
  have c: "findCandidateById (candidates ledger1) (candidate (someVote 100 7 ''President'' 1000)) = Some ada"
    by (simp add: ledger1_eq findCandidateById_def someVote_def ada_def)
  have "fst (invalidateVote ledger1 firstVote) = invalidated"
    using invalidateVote_found(3)[OF r cast_firstVote v c] by (simp add: ada_def)
  moreover have "snd (invalidateVote ledger1 firstVote) =
      \<lparr>votes = [(someVote 100 7 ''President'' 1000)\<lparr>isValid := False\<rparr>], candidates = [ada, bob]\<rparr>"
    using invalidateVote_found(1)[OF r cast_firstVote v] by (simp add: ledger1_eq someVote_def)
  ultimately show ?thesis by (simp add: prod_eq_iff)
qed

subsection \<open>One vote for a voter and a position\<close>

lemma insertVote_rejects_pair:
  assumes "list_ex (\<lambda>w. voter w = voter v \<and> position w = position v) vs"
  shows "\<exists>e. insertVote v vs = Inl e"
  using assms by (auto simp: insertVote_def uniqueViolation_def list_ex_iff)

lemma handle_uniqueIndex:
  assumes "uniqueIndex (votes s)"
  shows "uniqueIndex (votes (snd (handle s q)))"
proof (cases q)
  case (Cast r)
  have "votes (snd (castVote s r)) = votes s \<or>
     (\<exists>k. findVote (votes s) (req_user r) (req_position r) = None \<and>
        votes (snd (castVote s r)) = votes s @ [newVote r k])"
    using castVote_votes[of s r] by auto
  then show ?thesis
  proof
    assume "votes (snd (castVote s r)) = votes s"
    then show ?thesis using assms Cast by simp
  next
    assume "\<exists>k. findVote (votes s) (req_user r) (req_position r) = None \<and>
        votes (snd (castVote s r)) = votes s @ [newVote r k]"
    then obtain k where n: "findVote (votes s) (req_user r) (req_position r) = None"
      and v: "votes (snd (castVote s r)) = votes s @ [newVote r k]" by blast
    have "(req_user r, trim (req_position r)) \<notin> set (map (\<lambda>w. (voter w, position w)) (votes s))"
      using n by (auto simp: findVote_None_iff list_ex_iff)
    then show ?thesis using assms Cast v by (simp add: uniqueIndex_def newVote_def)
  qed
next
  case (Invalidate r)
  then show ?thesis using assms by (simp add: uniqueIndex_def invalidateVote_map)
qed

lemma run_uniqueIndex:
  "uniqueIndex (votes s) \<Longrightarrow> uniqueIndex (votes (run s qs))"
  by (induction qs arbitrary: s) (simp_all add: handle_uniqueIndex)

lemma replies_duplicate:
  assumes "list_ex (\<lambda>v. voter v = u \<and> position v = p) (votes s)"
      and "list_all (\<lambda>r. req_user r = u \<and> trim (req_position r) = p \<and> reachesLookup s r) rs"
  shows "replies s (map Cast rs) = replicate (length rs) duplicateVote \<and> run s (map Cast rs) = s"
  using assms(2)
proof (induction rs)
  case Nil
  then show ?case by simp
next
  case (Cons r rs)
  then have r: "req_user r = u" "trim (req_position r) = p" "reachesLookup s r" by simp_all
  have "findVote (votes s) (req_user r) (req_position r) \<noteq> None"
    using assms(1) r by (simp add: findVote_None_iff)
  then obtain v where "findVote (votes s) (req_user r) (req_position r) = Some v" by auto
  then have "castVote s r = (duplicateVote, s)" using r(3) by (intro castVote_duplicate)
  then show ?case using Cons by simp
qed

text \<open>
  Claim C1 asks that of the ballots of one voter for one position exactly one is answered
  201 and every other one 400. Voter 7 sends three ballots for President to a ledger
  without votes: for Ada, for Bob, for Ada again. The first one stores its Vote record and
  is answered 500 "Server error", because the save of the candidate that follows is
  rejected; the other two are answered 400 "You have already voted for this position".
  None is answered 201. One record for voter 7 and President is stored, and both
  counters are 0 as before.
\<close>

theorem first_ballot_answered_500:
  "replies ledger0
     [Cast (ballot 7 adaId ''President'' 1000 100), Cast (ballot 7 bobId ''President'' 2000 101),
      Cast (ballot 7 adaId ''President'' 3000 102)] =
     [Reply 500 ''Server error'', Reply 400 ''You have already voted for this position'',
      Reply 400 ''You have already voted for this position'']
   \<and> run ledger0
     [Cast (ballot 7 adaId ''President'' 1000 100), Cast (ballot 7 bobId ''President'' 2000 101),
      Cast (ballot 7 adaId ''President'' 3000 102)] =
     \<lparr>votes = [someVote 100 7 ''President'' 1000], candidates = [ada, bob]\<rparr>
   \<and> map voteCount [ada, bob] = [0, 0]"
proof -
  let ?s1 = "\<lparr>votes = [someVote 100 7 ''President'' 1000], candidates = [ada, bob]\<rparr>"
  let ?rs = "[ballot 7 bobId ''President'' 2000 101, ballot 7 adaId ''President'' 3000 102]"
  have "list_ex (\<lambda>v. voter v = 7 \<and> position v = ''President'') (votes ?s1)"
    by (simp add: someVote_def)
  moreover have "list_all (\<lambda>r. req_user r = 7 \<and> trim (req_position r) = ''President'' \<and>
      reachesLookup ?s1 r) ?rs"
    using validBallot_candidates(1,2)[of ?s1, THEN validBallot_reachesLookup]
    by (simp add: ballot_def trim_President)
  ultimately have "replies ?s1 (map Cast ?rs) = replicate (length ?rs) duplicateVote \<and>
      run ?s1 (map Cast ?rs) = ?s1"
    by (rule replies_duplicate)
  then show ?thesis
    by (simp add: castVote_ledger0 serverError_def duplicateVote_def ada_def bob_def)
qed

text \<open>
  Claim C3 asks that the counter of a candidate is the number of valid Vote records that
  reference it. Voter 7 votes for Ada in a ledger without votes. The Vote record is
  stored, with \<open>isValid = true\<close>; the handler then assigns \<open>voteCount + 1\<close> and saves the
  candidate, the \<^verbatim>\<open>pre('save')\<close> hook finds \<^verbatim>\<open>voteCount\<close> modified and runs \<^verbatim>\<open>updateStats\<close>,
  whose own \<^verbatim>\<open>save()\<close> is rejected, and with it the save of the handler. The request is
  answered 500, one valid record references Ada, and Ada's counter is 0.
\<close>

theorem counter_not_raised:
  "fst (castVote ledger0 (ballot 7 adaId ''President'' 1000 100)) = Reply 500 ''Server error''
   \<and> saveCandidate 1000 \<lparr>votes = [someVote 100 7 ''President'' 1000], candidates = [ada, bob]\<rparr>
        ada (ada\<lparr>voteCount := voteCount ada + 1\<rparr>) = Inl ParallelSaveError
   \<and> filter (\<lambda>v. candidate v = 1 \<and> isValid v) (votes ledger1) = [someVote 100 7 ''President'' 1000]
   \<and> countVotes (\<lambda>v. candidate v = 1 \<and> isValid v) (votes ledger1) = 1
   \<and> map_option voteCount (findCandidateById (candidates ledger1) 1) = Some 0"
proof -
  have "saveCandidate 1000 \<lparr>votes = [someVote 100 7 ''President'' 1000], candidates = [ada, bob]\<rparr>
        ada (ada\<lparr>voteCount := voteCount ada + 1\<rparr>) = Inl ParallelSaveError"
    by (rule saveCandidate_increment)
  moreover have "fst (castVote ledger0 (ballot 7 adaId ''President'' 1000 100)) =
      Reply 500 ''Server error''"
    by (simp add: castVote_ledger0 serverError_def)
  moreover have "filter (\<lambda>v. candidate v = 1 \<and> isValid v) (votes ledger1) =
      [someVote 100 7 ''President'' 1000]"
    by (simp add: ledger1_eq someVote_def)
  moreover have "map_option voteCount (findCandidateById (candidates ledger1) 1) = Some 0"
    by (simp add: ledger1_eq findCandidateById_def ada_def)
  ultimately show ?thesis by (simp add: countVotes_def)
qed

subsection \<open>The position a vote is recorded under\<close>

lemma findCandidateById_map:
  assumes "\<And>c. cid (g c) = cid c"
  shows "findCandidateById (map g cs) k = map_option g (findCandidateById cs k)"
  using assms by (induction cs) (auto simp: findCandidateById_def)

lemma castVote_ignores_cposition:
  "fst (castVote (s\<lparr>candidates := map (\<lambda>c. c\<lparr>cposition := f c\<rparr>) (candidates s)\<rparr>) r) =
     fst (castVote s r) \<and>
   votes (snd (castVote (s\<lparr>candidates := map (\<lambda>c. c\<lparr>cposition := f c\<rparr>) (candidates s)\<rparr>) r)) =
     votes (snd (castVote s r))"
proof -
  have "findCandidateById (map (\<lambda>c. c\<lparr>cposition := f c\<rparr>) (candidates s)) k =
      map_option (\<lambda>c. c\<lparr>cposition := f c\<rparr>) (findCandidateById (candidates s) k)" for k
    by (rule findCandidateById_map) simp
  then show ?thesis
    by (simp add: castVote_def saveCandidate_rejected split: option.splits sum.splits)
qed

text \<open>
  Claim C2 as stated fails: Ada is stored as a candidate for "President"; voter 8 submits
  a ballot for Ada with the position "Mayor". No check compares the two positions: the
  Vote record is stored, under "Mayor". (The reply is the 500 of the rejected candidate
  save, see C1; it is not a reply about the position.)
\<close>

theorem position_mismatch_counterexample:
  "map_option cposition (findCandidateById (candidates ledger0) 1) = Some ''President''
   \<and> castObjectId (req_candidateId (ballot 8 adaId ''Mayor'' 2000 101)) = Some 1
   \<and> castVote ledger0 (ballot 8 adaId ''Mayor'' 2000 101) =
       (Reply 500 ''Server error'',
        \<lparr>votes = [\<lparr>vid = 101, voter = 8, candidate = 1, position = ''Mayor'',
                   ipAddress = ''10.0.0.1'', userAgent = ''Mozilla/5.0'', isValid = True,
                   createdAt = 2000\<rparr>],
         candidates = [ada, bob]\<rparr>)"
proof -
  let ?b = "ballot 8 adaId ''Mayor'' 2000 101"
  have "validBallot ledger0 ?b" by (rule validBallot_candidates) (simp add: ledger0_def)
  moreover have "findVote (votes ledger0) (req_user ?b) (req_position ?b) = None"
    by (simp add: ledger0_def findVote_def)
  moreover have "freshId ledger0 ?b" by (simp add: ledger0_def freshId_def)
  ultimately obtain k where "castObjectId (req_candidateId ?b) = Some k"
     "castVote ledger0 ?b = (serverError, ledger0\<lparr>votes := votes ledger0 @ [newVote ?b k]\<rparr>)"
    using castVote_stored by blast
  then have "castVote ledger0 ?b =
       (Reply 500 ''Server error'',
        \<lparr>votes = [\<lparr>vid = 101, voter = 8, candidate = 1, position = ''Mayor'',
                   ipAddress = ''10.0.0.1'', userAgent = ''Mozilla/5.0'', isValid = True,
                   createdAt = 2000\<rparr>],
         candidates = [ada, bob]\<rparr>)"
    by (simp add: ballot_def cast_adaId ledger0_def newVote_def trim_Mayor serverError_def)
  moreover have "map_option cposition (findCandidateById (candidates ledger0) 1) = Some ''President''"
    by (simp add: ledger0_def findCandidateById_def ada_def)
  moreover have "castObjectId (req_candidateId ?b) = Some 1"
    by (simp add: ballot_def cast_adaId)
  ultimately show ?thesis by simp
qed

text \<open>
  Claim C2, amended. \<^verbatim>\<open>POST /votes\<close> has no reply for a position that differs from the one
  stored on the candidate, and never reads that field: the reply and the Vote collection it
  leaves are the same whatever positions the candidate documents carry. The collection it
  leaves is the one it found, or that one with a single new record, which carries the
  requesting voter, the candidate named in the request and the position of the request,
  trimmed. A ballot that names an active candidate, carries an address and a
  \<^verbatim>\<open>User-Agent\<close> and a position that is not blank, from a voter without a vote for that
  position, is recorded in this way, whatever position the candidate is stored under.
\<close>

theorem castVote_records_requested_position:
  "fst (castVote s r) \<in>
     {Reply 400 ''Validation failed'', Reply 404 ''Candidate not found'', duplicateVote,
      serverError, created}
   \<and> fst (castVote (s\<lparr>candidates := map (\<lambda>c. c\<lparr>cposition := f c\<rparr>) (candidates s)\<rparr>) r) =
       fst (castVote s r)
   \<and> votes (snd (castVote (s\<lparr>candidates := map (\<lambda>c. c\<lparr>cposition := f c\<rparr>) (candidates s)\<rparr>) r)) =
       votes (snd (castVote s r))
   \<and> (votes (snd (castVote s r)) = votes s \<or>
      (\<exists>k v. castObjectId (req_candidateId r) = Some k \<and>
         votes (snd (castVote s r)) = votes s @ [v] \<and> v = newVote r k \<and>
         voter v = req_user r \<and> candidate v = k \<and> position v = trim (req_position r)))
   \<and> (validBallot s r \<and> findVote (votes s) (req_user r) (req_position r) = None \<and> freshId s r \<longrightarrow>
        (\<exists>k v. castObjectId (req_candidateId r) = Some k \<and>
           votes (snd (castVote s r)) = votes s @ [v] \<and>
           voter v = req_user r \<and> candidate v = k \<and> position v = trim (req_position r)))"
proof -
  have a: "fst (castVote s r) \<in>
     {Reply 400 ''Validation failed'', Reply 404 ''Candidate not found'', duplicateVote,
      serverError, created}"
    using castVote_replies[of s r] by auto
  have d: "votes (snd (castVote s r)) = votes s \<or>
      (\<exists>k v. castObjectId (req_candidateId r) = Some k \<and>
         votes (snd (castVote s r)) = votes s @ [v] \<and> v = newVote r k \<and>
         voter v = req_user r \<and> candidate v = k \<and> position v = trim (req_position r))"
    using castVote_votes[of s r] by (auto simp: newVote_def)
  have e: "\<exists>k v. castObjectId (req_candidateId r) = Some k \<and>
           votes (snd (castVote s r)) = votes s @ [v] \<and>
           voter v = req_user r \<and> candidate v = k \<and> position v = trim (req_position r)"
    if h: "validBallot s r" "findVote (votes s) (req_user r) (req_position r) = None" "freshId s r"
  proof -
    obtain k where "castObjectId (req_candidateId r) = Some k"
      "castVote s r = (serverError, s\<lparr>votes := votes s @ [newVote r k]\<rparr>)"
      using castVote_stored[OF h] by blast
    then show ?thesis by (simp add: newVote_def)
  qed
  show ?thesis using a d e castVote_ignores_cposition[where s = s and f = f and r = r] by blast
qed

theorem castVote_records_requested_position_witness:
  "votes (snd (castVote ledger0 (ballot 8 adaId ''Mayor'' 2000 101))) = [someVote 101 8 ''Mayor'' 2000]
   \<and> votes (snd (castVote (ledger0\<lparr>candidates := map (\<lambda>c. c\<lparr>cposition := ''Mayor''\<rparr>) (candidates ledger0)\<rparr>)
        (ballot 8 adaId ''Mayor'' 2000 101))) = [someVote 101 8 ''Mayor'' 2000]"
proof -
  let ?b = "ballot 8 adaId ''Mayor'' 2000 101"
  have "validBallot ledger0 ?b" by (rule validBallot_candidates) (simp add: ledger0_def)
  moreover have "findVote (votes ledger0) (req_user ?b) (req_position ?b) = None"
    by (simp add: ledger0_def findVote_def)
  moreover have "freshId ledger0 ?b" by (simp add: ledger0_def freshId_def)
  ultimately have
    "\<exists>k v. castObjectId (req_candidateId ?b) = Some k \<and>
           votes (snd (castVote ledger0 ?b)) = votes ledger0 @ [v] \<and>
           voter v = req_user ?b \<and> candidate v = k \<and> position v = trim (req_position ?b)"
    and "votes (snd (castVote (ledger0\<lparr>candidates := map (\<lambda>c. c\<lparr>cposition := ''Mayor''\<rparr>) (candidates ledger0)\<rparr>) ?b)) =
       votes (snd (castVote ledger0 ?b))"
    and "votes (snd (castVote ledger0 ?b)) = votes ledger0 \<or>
      (\<exists>k v. castObjectId (req_candidateId ?b) = Some k \<and>
         votes (snd (castVote ledger0 ?b)) = votes ledger0 @ [v] \<and> v = newVote ?b k \<and>
         voter v = req_user ?b \<and> candidate v = k \<and> position v = trim (req_position ?b))"
    using castVote_records_requested_position[where s = ledger0 and r = ?b and f = "\<lambda>c. ''Mayor''"] by blast+
  then show ?thesis
    by (auto simp: ledger0_def ballot_def cast_adaId newVote_def someVote_def trim_Mayor)
qed

subsection \<open>The slot of an invalidated vote\<close>

text \<open>
  Claim C6. An administrator invalidates a stored vote: the record stays in the
  collection with \<open>isValid = false\<close>. After that, and after any further requests, a ballot
  of the same voter for the same position stores nothing and is not answered 201; it is
  answered 400 "You have already voted for this position" whenever it passes the checks
  that precede the look-up of an earlier vote (a well-formed id of an active candidate
  and a position that is not empty).
\<close>

theorem invalidated_vote_keeps_slot:
  assumes "inv_role ri = ''admin''" and "castObjectId (inv_id ri) = Some k"
      and "findVoteById (votes s) k = Some v"
      and "req_user r = voter v" and "trim (req_position r) = position v"
  shows "findVoteById (votes (snd (invalidateVote s ri))) k = Some (v\<lparr>isValid := False\<rparr>)
       \<and> snd (castVote (run (snd (invalidateVote s ri)) qs) r) = run (snd (invalidateVote s ri)) qs
       \<and> fst (castVote (run (snd (invalidateVote s ri)) qs) r) \<noteq> created
       \<and> (reachesLookup (run (snd (invalidateVote s ri)) qs) r \<longrightarrow>
            fst (castVote (run (snd (invalidateVote s ri)) qs) r) = duplicateVote)"
proof -
  let ?s1 = "snd (invalidateVote s ri)"
  have vid: "vid v = k" using assms(3) by (rule findVoteById_vid)
  have votes1: "votes ?s1 = updateVote (v\<lparr>isValid := False\<rparr>) (votes s)"
    using invalidateVote_found(1)[OF assms(1-3)] by simp
  have found: "findVoteById (votes ?s1) k = Some (v\<lparr>isValid := False\<rparr>)"
    using assms(3) vid by (simp add: votes1 find_updateVote)
  have "v \<in> set (votes s)"
    using assms(3) by (auto simp: findVoteById_def find_Some_iff)
  then have "list_ex (\<lambda>w. voter w = voter v \<and> position w = position v) (votes s)"
    by (auto simp: list_ex_iff)
  then have "(voter v, position v) \<in> set (map (\<lambda>w. (voter w, position w)) (votes s))"
    by (simp add: list_ex_key)
  moreover have "map (\<lambda>w. (voter w, position w)) (votes ?s1) = map (\<lambda>w. (voter w, position w)) (votes s)"
    by (rule invalidateVote_map) simp
  ultimately have "list_ex (\<lambda>w. voter w = voter v \<and> position w = position v) (votes ?s1)"
    by (simp add: list_ex_key)
  then have "list_ex (\<lambda>w. voter w = voter v \<and> position w = position v) (votes (run ?s1 qs))"
    by (rule run_keeps_vote)
  then have taken: "list_ex (\<lambda>w. voter w = req_user r \<and> position w = trim (req_position r))
      (votes (run ?s1 qs))"
    using assms(4,5) by simp
  show ?thesis
    using found castVote_taken[OF taken] castVote_not_created[of "run ?s1 qs" r] by simp
qed

theorem invalidated_vote_keeps_slot_witness:
  "findVoteById (votes (snd (invalidateVote ledger1 firstVote))) 100 =
     Some ((someVote 100 7 ''President'' 1000)\<lparr>isValid := False\<rparr>)
   \<and> castVote (snd (invalidateVote ledger1 firstVote)) (ballot 7 bobId ''President'' 2000 101) =
       (duplicateVote, snd (invalidateVote ledger1 firstVote))"
proof -
  let ?b = "ballot 7 bobId ''President'' 2000 101"
  have "candidates (snd (invalidateVote ledger1 firstVote)) = [ada, bob]"
    by (simp add: invalidate_ledger1)
  then have "reachesLookup (run (snd (invalidateVote ledger1 firstVote)) []) ?b"
    using validBallot_candidates(2)[THEN validBallot_reachesLookup] by simp
  moreover have "inv_role firstVote = ''admin''" by (simp add: firstVote_def)
  moreover have "findVoteById (votes ledger1) 100 = Some (someVote 100 7 ''President'' 1000)"
    by (simp add: ledger1_eq findVoteById_def someVote_def)
  moreover have "req_user ?b = voter (someVote 100 7 ''President'' 1000)"
    "trim (req_position ?b) = position (someVote 100 7 ''President'' 1000)"
    by (simp_all add: ballot_def someVote_def trim_President)
  ultimately show ?thesis
    using invalidated_vote_keeps_slot
      [of firstVote 100 ledger1 "someVote 100 7 ''President'' 1000" ?b "[]"] cast_firstVote
    by (simp add: prod_eq_iff)
qed

subsection \<open>The frame of a ballot\<close>

text \<open>
  Claim C10. Whatever \<^verbatim>\<open>POST /votes\<close> answers, it leaves every Vote record that was stored
  as it was and adds at most one, the record of the ballot; it leaves every candidate
  other than the one named in the ballot as it was, and changes neither the identifier,
  the name, the position nor the activity flag of any candidate.
\<close>

theorem castVote_frame:
  "(votes (snd (castVote s r)) = votes s \<or>
      (\<exists>k. castObjectId (req_candidateId r) = Some k \<and>
         votes (snd (castVote s r)) = votes s @ [newVote r k]))
   \<and> take (length (votes s)) (votes (snd (castVote s r))) = votes s
   \<and> filter (\<lambda>d. Some (cid d) \<noteq> castObjectId (req_candidateId r)) (candidates (snd (castVote s r))) =
       filter (\<lambda>d. Some (cid d) \<noteq> castObjectId (req_candidateId r)) (candidates s)
   \<and> map cid (candidates (snd (castVote s r))) = map cid (candidates s)
   \<and> map name (candidates (snd (castVote s r))) = map name (candidates s)
   \<and> map cposition (candidates (snd (castVote s r))) = map cposition (candidates s)
   \<and> map isActive (candidates (snd (castVote s r))) = map isActive (candidates s)"
  using castVote_votes[of s r] by (auto simp: castVote_candidates)

theorem castVote_frame_witness:
  "votes (snd (castVote ledger1 (ballot 8 bobId ''President'' 2000 101))) =
     votes ledger1 @ [(someVote 101 8 ''President'' 2000)\<lparr>candidate := 2\<rparr>]
   \<and> filter (\<lambda>d. cid d \<noteq> 2) (candidates (snd (castVote ledger1 (ballot 8 bobId ''President'' 2000 101)))) =
       [ada]"
proof -
  let ?b = "ballot 8 bobId ''President'' 2000 101"
  have c: "candidates ledger1 = [ada, bob]" by (simp add: ledger1_eq)
  have "validBallot ledger1 ?b" using c by (rule validBallot_candidates)
  moreover have "findVote (votes ledger1) (req_user ?b) (req_position ?b) = None"
    by (simp add: ledger1_eq findVote_def ballot_def someVote_def)
  moreover have "freshId ledger1 ?b" by (simp add: ledger1_eq freshId_def ballot_def someVote_def)
  ultimately obtain k where "castObjectId (req_candidateId ?b) = Some k"
     "castVote ledger1 ?b = (serverError, ledger1\<lparr>votes := votes ledger1 @ [newVote ?b k]\<rparr>)"
    using castVote_stored by blast
  then have v: "votes (snd (castVote ledger1 ?b)) \<noteq> votes ledger1"
    and k: "castObjectId (req_candidateId ?b) = Some 2"
    by (simp_all add: ballot_def cast_bobId)
  show ?thesis
    using castVote_frame[of ledger1 ?b] v k c
    by (auto simp: newVote_def ballot_def someVote_def trim_President ada_def bob_def)
qed

subsection \<open>The counter of a candidate\<close>









subsection \<open>Double arithmetic\<close>

lemma ilog2_bounds: "0 < n \<Longrightarrow> 2 ^ ilog2 n \<le> n \<and> n < 2 ^ Suc (ilog2 n)"
proof (induction n rule: ilog2.induct)
  case (1 n)
  show ?case
  proof (cases "n < 2")
    case True
    then have "ilog2 n = 0" by (subst ilog2.simps) simp
    moreover have "n = 1" using True 1(2) by simp
    ultimately show ?thesis by simp
  next
    case False
    then have "0 < n div 2" by simp
    then have ih: "2 ^ ilog2 (n div 2) \<le> n div 2" "n div 2 < 2 ^ Suc (ilog2 (n div 2))"
      using 1(1)[OF False] by simp_all
    have eq: "ilog2 n = Suc (ilog2 (n div 2))" using False by (subst ilog2.simps) simp
    have "2 * 2 ^ ilog2 (n div 2) \<le> n" using ih(1) by linarith
    moreover have "n < 2 * 2 ^ Suc (ilog2 (n div 2))" using ih(2) by linarith
    ultimately show ?thesis by (simp add: eq)
  qed
qed

lemma roundHalfEven_err:
  fixes p q :: int
  assumes "0 < q"
  shows "\<bar>(of_int (roundHalfEven p q) :: rat) - of_int p / of_int q\<bar> \<le> 1 / 2"
proof -
  define f where "f = p div q"
  define r where "r = p mod q"
  have r: "0 \<le> r" "r < q" using assms by (simp_all add: r_def)
  have p: "p = q * f + r" by (simp add: f_def r_def)
  have q: "(0::rat) < of_int q" using assms by simp
  have frac: "(of_int p :: rat) / of_int q = of_int f + of_int r / of_int q"
    using q by (simp add: p field_simps)
  have r0: "(0::rat) \<le> of_int r / of_int q" using r q by simp
  have r1: "(of_int r :: rat) / of_int q < 1" using r q by simp
  consider "2 * r < q" | "q < 2 * r" | "2 * r = q" by linarith
  then show ?thesis
  proof cases
    case 1
    then have "(of_int (2 * r) :: rat) < of_int q" by (simp only: of_int_less_iff)
    then have "(of_int r :: rat) / of_int q < 1 / 2" using q by (simp add: field_simps)
    moreover have "roundHalfEven p q = f" using 1 by (simp add: roundHalfEven_def f_def r_def Let_def)
    ultimately show ?thesis using r0 by (simp add: frac)
  next
    case 2
    then have "(of_int q :: rat) < of_int (2 * r)" by (simp only: of_int_less_iff)
    then have "1 / 2 < (of_int r :: rat) / of_int q" using q by (simp add: field_simps)
    moreover have "roundHalfEven p q = f + 1" using 2 by (simp add: roundHalfEven_def f_def r_def Let_def)
    ultimately show ?thesis using r1 by (simp add: frac)
  next
    case 3
    then have "(of_int (2 * r) :: rat) = of_int q" by (simp only: of_int_eq_iff)
    then have h: "(of_int r :: rat) / of_int q = 1 / 2" using q by (simp add: field_simps)
    have "roundHalfEven p q = f \<or> roundHalfEven p q = f + 1"
      using 3 by (simp add: roundHalfEven_def f_def r_def Let_def)
    then show ?thesis
    proof
      assume "roundHalfEven p q = f"
      then show ?thesis unfolding frac h by simp
    next
      assume "roundHalfEven p q = f + 1"
      then show ?thesis unfolding frac h by simp
    qed
  qed
qed

lemma two_powi_pos: "(0::rat) < 2 powi n"
  by (simp add: zero_less_power_int)

lemma two_powi_nonneg: "0 \<le> n \<Longrightarrow> (2::rat) powi n = 2 ^ nat n"
  by (simp add: power_int_def)

lemma two_powi_neg: "n \<le> 0 \<Longrightarrow> (2::rat) powi n = 1 / 2 ^ nat (- n)"
  by (cases "n = 0") (simp_all add: power_int_def field_simps)

lemma ilog2_int:
  assumes "0 < (a::int)"
  shows "(2::rat) ^ ilog2 (nat a) \<le> of_int a" "(of_int a :: rat) < 2 ^ Suc (ilog2 (nat a))"
proof -
  have "0 < nat a" using assms by simp
  then have b: "2 ^ ilog2 (nat a) \<le> nat a" "nat a < 2 ^ Suc (ilog2 (nat a))"
    using ilog2_bounds by blast+
  have "(of_nat (2 ^ ilog2 (nat a)) :: rat) \<le> of_nat (nat a)" using b(1) by (simp only: of_nat_le_iff)
  then show "(2::rat) ^ ilog2 (nat a) \<le> of_int a" using assms by simp
  have "(of_nat (nat a) :: rat) < of_nat (2 ^ Suc (ilog2 (nat a)))" using b(2) by (simp only: of_nat_less_iff)
  then show "(of_int a :: rat) < 2 ^ Suc (ilog2 (nat a))" using assms by simp
qed

text \<open>The exponent chosen by \<open>nearestDouble\<close> is not above that of the quotient.\<close>

lemma nearestDouble_exponent:
  assumes "0 < a" "0 < b"
  shows "(2::rat) powi (snd (nearestDouble a b) + 52) \<le> of_int a / of_int b"
proof -
  define e0 where "e0 = int (ilog2 (nat a)) - int (ilog2 (nat b))"
  define cond where "cond = (if 0 \<le> e0 then b * 2 ^ nat e0 \<le> a else b \<le> a * 2 ^ nat (- e0))"
  have snd_eq: "snd (nearestDouble a b) + 52 = (if cond then e0 else e0 - 1)"
    by (simp add: nearestDouble_def Let_def e0_def cond_def)
  have a: "(0::rat) < of_int a" and b: "(0::rat) < of_int b" using assms by simp_all
  show ?thesis
  proof (cases cond)
    case True
    have "(2::rat) powi e0 \<le> of_int a / of_int b"
    proof (cases "0 \<le> e0")
      case True
      then have "b * 2 ^ nat e0 \<le> a" using \<open>cond\<close> by (simp add: cond_def)
      then have "(of_int (b * 2 ^ nat e0) :: rat) \<le> of_int a" by (simp only: of_int_le_iff)
      then have "(2::rat) ^ nat e0 \<le> of_int a / of_int b" using b by (simp add: field_simps)
      then show ?thesis using True by (simp add: two_powi_nonneg)
    next
      case False
      then have "b \<le> a * 2 ^ nat (- e0)" using \<open>cond\<close> by (simp add: cond_def)
      then have "(of_int b :: rat) \<le> of_int (a * 2 ^ nat (- e0))" by (simp only: of_int_le_iff)
      then have "1 / (2::rat) ^ nat (- e0) \<le> of_int a / of_int b" using b by (simp add: field_simps)
      then show ?thesis using False by (simp add: two_powi_neg)
    qed
    then show ?thesis using True by (simp add: snd_eq)
  next
    case False
    have la: "(2::rat) ^ ilog2 (nat a) \<le> of_int a" using assms(1) by (rule ilog2_int)
    have lb: "(of_int b :: rat) < 2 ^ Suc (ilog2 (nat b))" using assms(2) by (rule ilog2_int)
    have "(2::rat) powi (e0 - 1) = 2 powi (int (ilog2 (nat a))) / 2 powi (int (Suc (ilog2 (nat b))))"
      unfolding e0_def by (subst power_int_diff[symmetric]) (simp_all add: algebra_simps)
    also have "\<dots> = 2 ^ ilog2 (nat a) / 2 ^ Suc (ilog2 (nat b))"
      by (simp only: power_int_of_nat)
    also have "\<dots> \<le> of_int a / 2 ^ Suc (ilog2 (nat b))"
      using la by (simp add: divide_right_mono)
    also have "\<dots> \<le> of_int a / of_int b"
      using lb a b by (simp add: frac_le)
    finally show ?thesis using False by (simp add: snd_eq)
  qed
qed

text \<open>The mantissa is the quotient in units of \<open>2 ^ u\<close>, up to one half.\<close>

lemma nearestDouble_mantissa:
  assumes "0 < a" "0 < b"
  shows "\<bar>(of_int (fst (nearestDouble a b)) :: rat) -
           of_int a / of_int b / 2 powi snd (nearestDouble a b)\<bar> \<le> 1 / 2"
proof -
  define u where "u = snd (nearestDouble a b)"
  define m where "m = fst (nearestDouble a b)"
  have "\<bar>(of_int m :: rat) - of_int a / of_int b / 2 powi u\<bar> \<le> 1 / 2"
  proof (cases "0 \<le> u")
    case True
    then have m: "m = roundHalfEven a (b * 2 ^ nat u)"
      by (simp add: nearestDouble_def Let_def u_def m_def)
    have "0 < b * 2 ^ nat u" using assms(2) by simp
    then have "\<bar>(of_int (roundHalfEven a (b * 2 ^ nat u)) :: rat) -
        of_int a / of_int (b * 2 ^ nat u)\<bar> \<le> 1 / 2"
      by (rule roundHalfEven_err)
    moreover have "(of_int a :: rat) / of_int (b * 2 ^ nat u) = of_int a / of_int b / 2 powi u"
      using True by (simp add: two_powi_nonneg)
    ultimately show ?thesis by (simp only: m)
  next
    case False
    then have m: "m = roundHalfEven (a * 2 ^ nat (- u)) b"
      by (simp add: nearestDouble_def Let_def u_def m_def)
    have "\<bar>(of_int (roundHalfEven (a * 2 ^ nat (- u)) b) :: rat) -
        of_int (a * 2 ^ nat (- u)) / of_int b\<bar> \<le> 1 / 2"
      using assms(2) by (rule roundHalfEven_err)
    moreover have "(of_int (a * 2 ^ nat (- u)) :: rat) / of_int b = of_int a / of_int b / 2 powi u"
      using False by (simp add: two_powi_neg)
    ultimately show ?thesis by (simp only: m)
  qed
  then show ?thesis by (simp only: u_def m_def)
qed

lemma nearestDouble_err:
  assumes "0 < a" "0 < b"
  shows "\<bar>dval (nearestDouble a b) - of_int a / of_int b\<bar> \<le> of_int a / of_int b / 2 ^ 53"
proof -
  define u where "u = snd (nearestDouble a b)"
  define m where "m = fst (nearestDouble a b)"
  define x :: rat where "x = of_int a / of_int b"
  have pu: "(0::rat) < 2 powi u" by (rule two_powi_pos)
  have "\<bar>(of_int m :: rat) - x / 2 powi u\<bar> \<le> 1 / 2"
    using nearestDouble_mantissa[OF assms] by (simp add: m_def u_def x_def)
  then have "\<bar>(of_int m :: rat) - x / 2 powi u\<bar> * 2 powi u \<le> 1 / 2 * 2 powi u"
    using pu by (intro mult_right_mono) simp_all
  moreover have "\<bar>(of_int m :: rat) - x / 2 powi u\<bar> * 2 powi u = \<bar>of_int m * 2 powi u - x\<bar>"
  proof -
    have "\<bar>(of_int m :: rat) - x / 2 powi u\<bar> * 2 powi u =
        \<bar>(of_int m - x / 2 powi u) * 2 powi u\<bar>"
      using pu by (simp add: abs_mult)
    also have "(of_int m - x / 2 powi u) * 2 powi u = of_int m * 2 powi u - x"
      using pu by (simp add: field_simps)
    finally show ?thesis .
  qed
  ultimately have e1: "\<bar>of_int m * 2 powi u - x\<bar> \<le> 2 powi u / 2" by simp
  have "(2::rat) powi (u + 52) \<le> x"
    using nearestDouble_exponent[OF assms] by (simp add: u_def x_def)
  moreover have "(2::rat) powi (u + 52) = 2 powi u * 2 ^ 52"
    by (subst power_int_add) simp_all
  ultimately have "(2::rat) powi u * 2 ^ 52 \<le> x" by simp
  then have "(2::rat) powi u / 2 \<le> x / 2 ^ 53" by (simp add: field_simps)
  then have "\<bar>of_int m * 2 powi u - x\<bar> \<le> x / 2 ^ 53" using e1 by linarith
  then show ?thesis by (simp add: dval_def m_def u_def x_def)
qed

lemma toDouble_err:
  assumes "0 < b"
  shows "\<bar>dval (toDouble a b) - of_int a / of_int b\<bar> \<le> \<bar>of_int a / of_int b\<bar> / 2 ^ 53"
proof -
  define x :: rat where "x = of_int a / of_int b"
  have b: "(0::rat) < of_int b" using assms by simp
  consider "a = 0" | "0 < a" | "a < 0" by linarith
  then have "\<bar>dval (toDouble a b) - x\<bar> \<le> \<bar>x\<bar> / 2 ^ 53"
  proof cases
    case 1
    then show ?thesis by (simp add: toDouble_def dval_def x_def)
  next
    case 2
    then have eq: "toDouble a b = nearestDouble a b" by (simp add: toDouble_def)
    have "0 \<le> x" using 2 b by (simp add: x_def)
    then have ax: "\<bar>x\<bar> = x" by simp
    have "\<bar>dval (nearestDouble a b) - x\<bar> \<le> x / 2 ^ 53"
      using nearestDouble_err[OF 2 assms] by (simp only: x_def)
    then show ?thesis by (simp only: eq ax)
  next
    case 3
    then have pos: "0 < - a" by simp
    have eq: "dval (toDouble a b) = - dval (nearestDouble (- a) b)"
      using 3 by (simp add: toDouble_def dval_def)
    define y :: rat where "y = of_int (- a) / of_int b"
    have xy: "x = - y" by (simp add: x_def y_def)
    have "0 \<le> y" using pos b unfolding y_def by (intro divide_nonneg_pos) simp_all
    then have ax: "\<bar>x\<bar> = y" by (simp add: xy)
    have "\<bar>dval (nearestDouble (- a) b) - y\<bar> \<le> y / 2 ^ 53"
      using nearestDouble_err[OF pos assms] by (simp only: y_def)
    moreover have "\<bar>dval (toDouble a b) - x\<bar> = \<bar>dval (nearestDouble (- a) b) - y\<bar>"
      unfolding eq xy by (simp add: abs_if)
    ultimately show ?thesis by (simp only: ax)
  qed
  then show ?thesis by (simp only: x_def)
qed

lemma jsDivide_err:
  assumes "0 < n"
  shows "\<bar>dval (jsDivide c n) - of_int c / of_nat n\<bar> \<le> \<bar>of_int c / of_nat n\<bar> / 2 ^ 53"
  using toDouble_err[of "int n" c] assms by (simp add: jsDivide_def)

lemma jsTimes_err:
  "\<bar>dval (jsTimes d k) - dval d * of_int k\<bar> \<le> \<bar>dval d * of_int k\<bar> / 2 ^ 53"
proof (cases "0 \<le> snd d")
  case True
  have eq: "jsTimes d k = toDouble (fst d * k * 2 ^ nat (snd d)) 1"
    using True by (simp add: jsTimes_def)
  have v: "(of_int (fst d * k * 2 ^ nat (snd d)) :: rat) / of_int 1 = dval d * of_int k"
    using True by (simp add: dval_def two_powi_nonneg)
  show ?thesis
    using toDouble_err[of 1 "fst d * k * 2 ^ nat (snd d)"] unfolding eq v by simp
next
  case False
  have eq: "jsTimes d k = toDouble (fst d * k) (2 ^ nat (- snd d))"
    using False by (simp add: jsTimes_def)
  have v: "(of_int (fst d * k) :: rat) / of_int (2 ^ nat (- snd d)) = dval d * of_int k"
    using False by (simp add: dval_def two_powi_neg)
  have "(0::int) < 2 ^ nat (- snd d)" by simp
  then show ?thesis
    using toDouble_err[of "2 ^ nat (- snd d)" "fst d * k"] unfolding eq v by blast
qed

lemma half_up_err:
  fixes p q :: int
  assumes "0 < q"
  shows "\<bar>(of_int ((2 * p + q) div (2 * q)) :: rat) - of_int p / of_int q\<bar> \<le> 1 / 2"
proof -
  define h where "h = (2 * p + q) div (2 * q)"
  define r where "r = (2 * p + q) mod (2 * q)"
  have r: "0 \<le> r" "r < 2 * q" using assms by (simp_all add: r_def)
  have e: "2 * p + q = 2 * q * h + r" by (simp add: h_def r_def)
  have q: "(0::rat) < of_int q" using assms by simp
  have "(of_int (2 * p) :: rat) = of_int (2 * q * h + r - q)" using e by (simp only: of_int_eq_iff)
  then have "(of_int p :: rat) / of_int q = of_int h + (of_int r - of_int q) / (2 * of_int q)"
    using q by (simp add: field_simps)
  moreover have "\<bar>((of_int r :: rat) - of_int q) / (2 * of_int q)\<bar> \<le> 1 / 2"
  proof -
    have "\<bar>(of_int r :: rat) - of_int q\<bar> \<le> of_int q"
    proof -
      have "\<bar>r - q\<bar> \<le> q" using r by simp
      then have "(of_int \<bar>r - q\<bar> :: rat) \<le> of_int q" by (simp only: of_int_le_iff)
      then show ?thesis by simp
    qed
    then show ?thesis using q by (simp add: field_simps abs_if split: if_splits)
  qed
  ultimately show ?thesis by (simp add: h_def)
qed

lemma hundredths_err: "\<bar>(of_int (hundredths d) :: rat) / 100 - dval d\<bar> \<le> 1 / 200"
proof (cases "0 \<le> snd d")
  case True
  have "sgn (fst d) * \<bar>fst d\<bar> = fst d" by (simp add: mult_sgn_abs)
  then have "hundredths d = 100 * fst d * 2 ^ nat (snd d)"
    using True by (simp add: hundredths_def algebra_simps)
  then show ?thesis using True by (simp add: dval_def two_powi_nonneg)
next
  case False
  define t where "t = nat (- snd d)"
  define H where "H = (2 * (100 * \<bar>fst d\<bar>) + 2 ^ t) div (2 * 2 ^ t)"
  have n1: "nat (1 - snd d) = Suc t" using False by (simp add: t_def)
  have hd: "hundredths d = sgn (fst d) * H"
    using False by (simp add: hundredths_def n1 H_def t_def[symmetric])
  have "\<bar>(of_int H :: rat) - of_int (100 * \<bar>fst d\<bar>) / of_int (2 ^ t)\<bar> \<le> 1 / 2"
    unfolding H_def by (rule half_up_err) simp
  then have H: "\<bar>(of_int H :: rat) - 100 * of_int \<bar>fst d\<bar> / 2 ^ t\<bar> \<le> 1 / 2" by simp
  have dv: "dval d = of_int (sgn (fst d)) * (of_int \<bar>fst d\<bar> / 2 ^ t)"
  proof -
    have "(of_int (fst d) :: rat) = of_int (sgn (fst d)) * of_int \<bar>fst d\<bar>"
      by (simp only: of_int_mult[symmetric] mult_sgn_abs)
    then show ?thesis using False by (simp add: dval_def two_powi_neg t_def)
  qed
  have key: "(of_int (hundredths d) :: rat) / 100 - dval d =
      of_int (sgn (fst d)) * ((of_int H - 100 * of_int \<bar>fst d\<bar> / 2 ^ t) / 100)"
    by (simp add: hd dv field_simps)
  have "\<bar>(of_int (hundredths d) :: rat) / 100 - dval d\<bar> =
      \<bar>(of_int (sgn (fst d)) :: rat) * ((of_int H - 100 * of_int \<bar>fst d\<bar> / 2 ^ t) / 100)\<bar>"
    by (simp only: key)
  also have "\<dots> =
      \<bar>(of_int (sgn (fst d)) :: rat)\<bar> * (\<bar>of_int H - 100 * of_int \<bar>fst d\<bar> / 2 ^ t\<bar> / 100)"
    by (simp only: abs_mult abs_divide)
  also have "\<dots> \<le> 1 * (\<bar>of_int H - 100 * of_int \<bar>fst d\<bar> / 2 ^ t\<bar> / 100)"
    by (intro mult_right_mono) (simp_all add: sgn_if)
  also have "\<dots> \<le> 1 / 200" using H by simp
  finally show ?thesis .
qed

text \<open>
  The number that \<^verbatim>\<open>((c / n) * 100).toFixed(2)\<close> denotes is within one half of a hundredth,
  and the two roundings of the double arithmetic, of \<open>100 * c / n\<close>.
\<close>

lemma percentage_err:
  assumes "0 \<le> c" "0 < n"
  shows "\<bar>(of_int (hundredths (jsTimes (jsDivide c n) 100)) :: rat) / 100 - 100 * of_int c / of_nat n\<bar>
           \<le> 1 / 200 + 100 * of_int c / of_nat n / 2 ^ 51"
proof -
  define x :: rat where "x = of_int c / of_nat n"
  define d1 where "d1 = jsDivide c n"
  define d2 where "d2 = jsTimes d1 100"
  have x: "0 \<le> x" using assms by (simp add: x_def)
  have e1: "\<bar>dval d1 - x\<bar> \<le> x / 2 ^ 53"
    using jsDivide_err[OF assms(2), of c] x by (simp add: d1_def x_def)
  have small: "x / 2 ^ 53 \<le> x" using x by (simp add: field_simps)
  have b1: "\<bar>dval d1\<bar> \<le> 2 * x" using e1 small by linarith
  have "\<bar>dval d2 - dval d1 * 100\<bar> \<le> \<bar>dval d1 * 100\<bar> / 2 ^ 53"
    using jsTimes_err[of d1 100] by (simp add: d2_def)
  also have "\<bar>dval d1 * 100\<bar> / 2 ^ 53 \<le> 200 * x / 2 ^ 53"
    using b1 by (simp add: abs_mult)
  finally have e2: "\<bar>dval d2 - dval d1 * 100\<bar> \<le> 200 * x / 2 ^ 53" .
  have e3: "\<bar>(of_int (hundredths d2) :: rat) / 100 - dval d2\<bar> \<le> 1 / 200"
    by (rule hundredths_err)
  have "\<bar>(of_int (hundredths d2) :: rat) / 100 - 100 * x\<bar> \<le>
      \<bar>(of_int (hundredths d2) :: rat) / 100 - dval d2\<bar> + \<bar>dval d2 - dval d1 * 100\<bar> +
      100 * \<bar>dval d1 - x\<bar>"
    by (simp add: abs_if split: if_splits)
  also have "\<dots> \<le> 1 / 200 + 200 * x / 2 ^ 53 + 100 * (x / 2 ^ 53)"
  proof -
    have "100 * \<bar>dval d1 - x\<bar> \<le> 100 * (x / 2 ^ 53)" using e1 by simp
    then show ?thesis using e2 e3 by (intro add_mono)
  qed
  also have "\<dots> \<le> 1 / 200 + 100 * x / 2 ^ 51" using x by simp
  finally show ?thesis by (simp add: d2_def d1_def x_def)
qed

subsection \<open>The results of a position\<close>

lemma sum_list_insort_key:
  "sum_list (map f (insort_key k x xs)) = f x + sum_list (map f xs)"
  for f :: "'a \<Rightarrow> 'b::comm_monoid_add"
  by (induction xs) (simp_all add: ac_simps)

lemma sum_list_sort_key:
  "sum_list (map f (sort_key k xs)) = sum_list (map f xs)"
  for f :: "'a \<Rightarrow> 'b::comm_monoid_add"
  by (induction xs) (simp_all add: sum_list_insort_key)

lemma numberOf_percentage_err:
  assumes "0 \<le> c" "0 < n"
  shows "\<bar>numberOf (percentage c n) - 100 * of_int c / of_nat n\<bar>
           \<le> 1 / 200 + 100 * of_int c / of_nat n / 2 ^ 51"
  using percentage_err[OF assms] assms(2) by (simp add: percentage_def numberOf_def)

lemma sum_percentage_err:
  assumes "list_all (\<lambda>c. 0 \<le> voteCount c) cs" "0 < n"
  shows "\<bar>sum_list (map (\<lambda>c. numberOf (percentage (voteCount c) n)) cs) -
            100 * of_int (sum_list (map voteCount cs)) / of_nat n\<bar>
           \<le> of_nat (length cs) / 200 + 100 * of_int (sum_list (map voteCount cs)) / of_nat n / 2 ^ 51"
  using assms(1)
proof (induction cs)
  case Nil
  then show ?case by simp
next
  case (Cons c cs)
  define a where "a = numberOf (percentage (voteCount c) n)"
  define x :: rat where "x = 100 * of_int (voteCount c) / of_nat n"
  define A where "A = sum_list (map (\<lambda>c. numberOf (percentage (voteCount c) n)) cs)"
  define X :: rat where "X = 100 * of_int (sum_list (map voteCount cs)) / of_nat n"
  have c: "0 \<le> voteCount c" and cs: "list_all (\<lambda>c. 0 \<le> voteCount c) cs"
    using Cons.prems by simp_all
  have h: "\<bar>a - x\<bar> \<le> 1 / 200 + x / 2 ^ 51"
    using numberOf_percentage_err[OF c assms(2)] by (simp add: a_def x_def)
  have t: "\<bar>A - X\<bar> \<le> of_nat (length cs) / 200 + X / 2 ^ 51"
    using Cons.IH[OF cs] by (simp add: A_def X_def)
  have n: "(0::rat) < of_nat n" using assms(2) by simp
  have sum: "100 * of_int (sum_list (map voteCount (c # cs))) / of_nat n = x + X"
    using n by (simp add: x_def X_def field_simps)
  have "\<bar>(a + A) - (x + X)\<bar> \<le> \<bar>a - x\<bar> + \<bar>A - X\<bar>" by linarith
  also have "\<dots> \<le> (1 / 200 + x / 2 ^ 51) + (of_nat (length cs) / 200 + X / 2 ^ 51)"
    using h t by (rule add_mono)
  also have "\<dots> = of_nat (length (c # cs)) / 200 + (x + X) / 2 ^ 51"
    by (simp add: field_simps)
  finally have "\<bar>(a + A) - (x + X)\<bar> \<le> of_nat (length (c # cs)) / 200 + (x + X) / 2 ^ 51" .
  then show ?case unfolding sum by (simp add: a_def A_def)
qed

lemma active_counters_nonneg:
  "list_all (\<lambda>c. 0 \<le> voteCount c) cs \<Longrightarrow>
     list_all (\<lambda>c. 0 \<le> voteCount c) (activeCandidates cs p)"
  by (auto simp: activeCandidates_def list_all_iff)

lemma sum_active:
  "sum_list (map voteCount (activeCandidates cs p)) =
     sum_list (map voteCount (filter (\<lambda>c. cposition c = trim p \<and> isActive c) cs))"
  by (simp add: activeCandidates_def sum_list_sort_key)

lemma percentage_half: "percentage 1 2 = Fixed2 5000"
  by (simp add: percentage_def jsDivide_def jsTimes_def toDouble_def nearestDouble_def
      roundHalfEven_def hundredths_def Let_def ilog2.simps)

lemma percentage_third: "percentage 1 3 = Fixed2 3333"
  by (simp add: percentage_def jsDivide_def jsTimes_def toDouble_def nearestDouble_def
      roundHalfEven_def hundredths_def Let_def ilog2.simps)

lemma percentage_none: "0 < n \<Longrightarrow> percentage 0 n = Fixed2 0"
  by (simp add: percentage_def jsDivide_def jsTimes_def toDouble_def hundredths_def)

lemma render_examples:
  "render (Fixed2 5000) = ''50.00''" "render (Fixed2 3333) = ''33.33''"
  "render (Fixed2 0) = ''0.00''"
  by (simp_all add: render_def showFixed2_def decimal.simps)

text \<open>
  Claim C5 as stated fails. Ada and Bob are candidates for "President" with one vote
  each, both votes stored under "President", and Bob has been deactivated. Ada is the only
  active candidate, so the counters of the active candidates add up to 1 and the claim
  gives her one vote out of one: 100. The handler divides by the number of Vote records
  stored under the position, which is 2: her percentage is "50.00", and that is also the
  sum of the percentages. The second part is the ledger after the first ballot: one
  Vote record is stored under "President", \<^verbatim>\<open>totalVotes\<close> is 1, the counters were never
  raised, and both percentages are "0.00".
\<close>

theorem percentage_counterexample:
  "map res_name (res_results (resultsForPosition ledgerWithdrawn ''President'')) = [''Ada'']
   \<and> map res_voteCount (res_results (resultsForPosition ledgerWithdrawn ''President'')) = [1]
   \<and> sum_list (map voteCount (filter (\<lambda>c. cposition c = ''President'' \<and> isActive c)
         (candidates ledgerWithdrawn))) = 1
   \<and> res_totalVotes (resultsForPosition ledgerWithdrawn ''President'') = 2
   \<and> map (\<lambda>row. render (res_percentage row))
         (res_results (resultsForPosition ledgerWithdrawn ''President'')) = [''50.00'']
   \<and> res_totalVotes (resultsForPosition ledger1 ''President'') = 1
   \<and> map (\<lambda>row. render (res_percentage row))
         (res_results (resultsForPosition ledger1 ''President'')) = [''0.00'', ''0.00'']"
proof -
  have a: "activeCandidates (candidates ledgerWithdrawn) ''President'' = [nominee 1 ''Ada'' True 1]"
    by (simp add: activeCandidates_def ledgerWithdrawn_def nominee_def trim_President)
  have n: "countVotes (\<lambda>v. position v = trim ''President'') (votes ledgerWithdrawn) = 2"
    by (simp add: countVotes_def ledgerWithdrawn_def voteFor_def trim_President)
  have f: "filter (\<lambda>c. cposition c = ''President'' \<and> isActive c) (candidates ledgerWithdrawn) =
      [nominee 1 ''Ada'' True 1]"
    by (simp add: ledgerWithdrawn_def nominee_def)
  have a1: "activeCandidates (candidates ledger1) ''President'' = [ada, bob]"
    by (simp add: activeCandidates_def ledger1_eq ada_def bob_def trim_President)
  have n1: "countVotes (\<lambda>v. position v = trim ''President'') (votes ledger1) = 1"
    by (simp add: countVotes_def ledger1_eq someVote_def trim_President)
  show ?thesis
    by (simp add: resultsForPosition_def Let_def a n f a1 n1 percentage_half percentage_none
        render_examples)
       (simp add: nominee_def ada_def bob_def percentage_half percentage_none render_examples)
qed

text \<open>
  Claim C5, amended. The rows of \<^verbatim>\<open>GET /votes/results/:position\<close> are the active
  candidates stored under the position, and \<^verbatim>\<open>totalVotes\<close> is the number \<open>n\<close> of Vote
  records stored under the position, valid or not and whatever candidate they name. When
  \<open>n = 0\<close> every percentage is the number 0. Otherwise the percentage of a row is the
  string that \<^verbatim>\<open>toFixed(2)\<close> gives for its counter divided by \<open>n\<close> and multiplied by 100 in
  double arithmetic; for counters that are not negative the number it denotes differs from
  \<open>100 * voteCount / n\<close> by at most 0.005 and the rounding of the two operations, and the
  percentages of the rows add up to \<open>100 * (sum of the rows' counters) / n\<close> within that
  tolerance for each row: approximately 100 when the counters of the active candidates
  add up to \<open>n\<close>.
\<close>

theorem resultsForPosition_percentages:
  assumes "list_all (\<lambda>c. 0 \<le> voteCount c) (candidates s)"
  shows "res_totalVotes (resultsForPosition s p) = countVotes (\<lambda>v. position v = trim p) (votes s)
   \<and> map res_id (res_results (resultsForPosition s p)) =
       map cid (activeCandidates (candidates s) p)
   \<and> map res_voteCount (res_results (resultsForPosition s p)) =
       map voteCount (activeCandidates (candidates s) p)
   \<and> set (activeCandidates (candidates s) p) =
       {c \<in> set (candidates s). cposition c = trim p \<and> isActive c}
   \<and> (res_totalVotes (resultsForPosition s p) = 0 \<longrightarrow>
        list_all (\<lambda>row. res_percentage row = Zero) (res_results (resultsForPosition s p)))
   \<and> (0 < res_totalVotes (resultsForPosition s p) \<longrightarrow>
        list_all (\<lambda>row.
            res_percentage row =
              Fixed2 (hundredths (jsTimes (jsDivide (res_voteCount row)
                        (res_totalVotes (resultsForPosition s p))) 100)) \<and>
            \<bar>numberOf (res_percentage row) -
               100 * of_int (res_voteCount row) / of_nat (res_totalVotes (resultsForPosition s p))\<bar>
              \<le> 1 / 200 +
                 100 * of_int (res_voteCount row) / of_nat (res_totalVotes (resultsForPosition s p))
                   / 2 ^ 51)
          (res_results (resultsForPosition s p)))
   \<and> (0 < res_totalVotes (resultsForPosition s p) \<longrightarrow>
        \<bar>sum_list (map (\<lambda>row. numberOf (res_percentage row)) (res_results (resultsForPosition s p))) -
           100 * of_int (sum_list (map voteCount
                   (filter (\<lambda>c. cposition c = trim p \<and> isActive c) (candidates s))))
             / of_nat (res_totalVotes (resultsForPosition s p))\<bar>
          \<le> of_nat (length (res_results (resultsForPosition s p))) / 200 +
             100 * of_int (sum_list (map voteCount
                   (filter (\<lambda>c. cposition c = trim p \<and> isActive c) (candidates s))))
               / of_nat (res_totalVotes (resultsForPosition s p)) / 2 ^ 51)
   \<and> (0 < res_totalVotes (resultsForPosition s p) \<and>
       sum_list (map voteCount (filter (\<lambda>c. cposition c = trim p \<and> isActive c) (candidates s))) =
         int (res_totalVotes (resultsForPosition s p)) \<longrightarrow>
        \<bar>sum_list (map (\<lambda>row. numberOf (res_percentage row)) (res_results (resultsForPosition s p))) -
           100\<bar>
          \<le> of_nat (length (res_results (resultsForPosition s p))) / 200 + 100 / 2 ^ 51)"
proof -
  let ?n = "countVotes (\<lambda>v. position v = trim p) (votes s)"
  let ?cs = "activeCandidates (candidates s) p"
  let ?S = "sum_list (map voteCount (filter (\<lambda>c. cposition c = trim p \<and> isActive c) (candidates s)))"
  have n: "res_totalVotes (resultsForPosition s p) = ?n"
    by (simp add: resultsForPosition_def Let_def)
  have rows: "res_results (resultsForPosition s p) =
      map (\<lambda>c. \<lparr>res_id = cid c, res_name = name c, res_voteCount = voteCount c,
                 res_percentage = percentage (voteCount c) ?n\<rparr>) ?cs"
    by (simp add: resultsForPosition_def Let_def)
  have nonneg: "list_all (\<lambda>c. 0 \<le> voteCount c) ?cs"
    using assms by (rule active_counters_nonneg)
  have ids: "map res_id (res_results (resultsForPosition s p)) = map cid ?cs"
    and counts: "map res_voteCount (res_results (resultsForPosition s p)) = map voteCount ?cs"
    by (simp_all add: rows comp_def)
  have active: "set ?cs = {c \<in> set (candidates s). cposition c = trim p \<and> isActive c}"
    by (auto simp: activeCandidates_def)
  have zero: "list_all (\<lambda>row. res_percentage row = Zero) (res_results (resultsForPosition s p))"
    if "?n = 0"
    using that by (simp add: rows list_all_iff percentage_def)
  have each: "list_all (\<lambda>row.
            res_percentage row = Fixed2 (hundredths (jsTimes (jsDivide (res_voteCount row) ?n) 100)) \<and>
            \<bar>numberOf (res_percentage row) - 100 * of_int (res_voteCount row) / of_nat ?n\<bar>
              \<le> 1 / 200 + 100 * of_int (res_voteCount row) / of_nat ?n / 2 ^ 51)
          (res_results (resultsForPosition s p))"
    if pos: "0 < ?n"
  proof -
    have eq: "percentage c ?n = Fixed2 (hundredths (jsTimes (jsDivide c ?n) 100))" for c
      using pos by (simp add: percentage_def)
    have "\<bar>numberOf (percentage (voteCount c) ?n) - 100 * of_int (voteCount c) / of_nat ?n\<bar>
          \<le> 1 / 200 + 100 * of_int (voteCount c) / of_nat ?n / 2 ^ 51"
      if "c \<in> set ?cs" for c
    proof -
      have "0 \<le> voteCount c" using nonneg that by (simp add: list_all_iff)
      then show ?thesis using pos by (rule numberOf_percentage_err)
    qed
    then have "\<forall>c \<in> set ?cs.
        percentage (voteCount c) ?n = Fixed2 (hundredths (jsTimes (jsDivide (voteCount c) ?n) 100)) \<and>
        \<bar>numberOf (percentage (voteCount c) ?n) - 100 * of_int (voteCount c) / of_nat ?n\<bar>
          \<le> 1 / 200 + 100 * of_int (voteCount c) / of_nat ?n / 2 ^ 51"
      using eq by blast
    then show ?thesis unfolding rows list_all_iff by (auto simp: eq)
  qed
  have total: "\<bar>sum_list (map (\<lambda>row. numberOf (res_percentage row)) (res_results (resultsForPosition s p))) -
           100 * of_int ?S / of_nat ?n\<bar>
          \<le> of_nat (length (res_results (resultsForPosition s p))) / 200 +
             100 * of_int ?S / of_nat ?n / 2 ^ 51"
    if pos: "0 < ?n"
    using sum_percentage_err[OF nonneg pos] by (simp add: rows comp_def sum_active)
  have hundred: "\<bar>sum_list (map (\<lambda>row. numberOf (res_percentage row)) (res_results (resultsForPosition s p))) -
           100\<bar>
          \<le> of_nat (length (res_results (resultsForPosition s p))) / 200 + 100 / 2 ^ 51"
    if pos: "0 < ?n" and eq: "?S = int ?n"
  proof -
    have "(100 * of_int ?S / of_nat ?n :: rat) = 100" using pos by (simp add: eq)
    then show ?thesis using total[OF pos] by simp
  qed
  show ?thesis unfolding n using ids counts active zero each total hundred by blast
qed

theorem resultsForPosition_percentages_witness:
  "res_totalVotes (resultsForPosition ledgerThree ''President'') = 3
   \<and> map (\<lambda>row. render (res_percentage row))
         (res_results (resultsForPosition ledgerThree ''President'')) = [''33.33'', ''33.33'', ''33.33'']
   \<and> sum_list (map (\<lambda>row. numberOf (res_percentage row))
         (res_results (resultsForPosition ledgerThree ''President''))) = 9999 / 100
   \<and> \<bar>sum_list (map (\<lambda>row. numberOf (res_percentage row))
         (res_results (resultsForPosition ledgerThree ''President''))) - 100\<bar>
       \<le> 3 / 200 + 100 / 2 ^ 51"
proof -
  have a: "activeCandidates (candidates ledgerThree) ''President'' =
      [nominee 1 ''Ada'' True 1, nominee 2 ''Bob'' True 1, nominee 3 ''Cy'' True 1]"
    by (simp add: activeCandidates_def ledgerThree_def nominee_def trim_President)
  have n: "countVotes (\<lambda>v. position v = trim ''President'') (votes ledgerThree) = 3"
    by (simp add: countVotes_def ledgerThree_def voteFor_def trim_President)
  have rows: "map res_percentage (res_results (resultsForPosition ledgerThree ''President'')) =
      [Fixed2 3333, Fixed2 3333, Fixed2 3333]"
    by (simp add: resultsForPosition_def Let_def a n nominee_def percentage_third)
  have len: "length (res_results (resultsForPosition ledgerThree ''President'')) = 3"
    by (simp add: resultsForPosition_def Let_def a)
  have tot: "res_totalVotes (resultsForPosition ledgerThree ''President'') = 3"
    by (simp add: resultsForPosition_def Let_def n)
  have f: "sum_list (map voteCount (filter (\<lambda>c. cposition c = trim ''President'' \<and> isActive c)
      (candidates ledgerThree))) = 3"
    by (simp add: ledgerThree_def nominee_def trim_President)
  have nn: "list_all (\<lambda>c. 0 \<le> voteCount c) (candidates ledgerThree)"
    by (simp add: ledgerThree_def nominee_def)
  have r: "map (\<lambda>row. render (res_percentage row))
         (res_results (resultsForPosition ledgerThree ''President'')) =
      map render (map res_percentage (res_results (resultsForPosition ledgerThree ''President'')))"
    by (simp add: comp_def)
  have v: "sum_list (map (\<lambda>row. numberOf (res_percentage row))
         (res_results (resultsForPosition ledgerThree ''President''))) =
      sum_list (map numberOf (map res_percentage (res_results (resultsForPosition ledgerThree ''President''))))"
    by (simp add: comp_def)
  have "\<bar>sum_list (map (\<lambda>row. numberOf (res_percentage row))
         (res_results (resultsForPosition ledgerThree ''President''))) - 100\<bar>
       \<le> of_nat (length (res_results (resultsForPosition ledgerThree ''President''))) / 200 + 100 / 2 ^ 51"
    using resultsForPosition_percentages[OF nn, of "''President''"] f tot by simp
  then show ?thesis
    unfolding r v rows len by (simp add: tot render_examples numberOf_def)
qed

subsection \<open>The voting history\<close>

lemma concat_pages:
  "concat (map (\<lambda>i. take n (drop (i * n) xs)) [0..<k]) = take (k * n) xs"
proof (induction k)
  case 0
  then show ?case by simp
next
  case (Suc k)
  have "take (k * n) xs @ take n (drop (k * n) xs) = take (k * n + n) xs"
    by (simp add: take_add)
  then show ?case using Suc by (simp add: add.commute)
qed

lemma sorted_ownVotes:
  "sorted_wrt (\<lambda>a b. createdAt a \<ge> createdAt b) (ownVotes vs u)"
proof -
  have "sorted (map (\<lambda>v. - int (createdAt v)) (ownVotes vs u))"
    by (simp add: ownVotes_def)
  then show ?thesis by (simp add: sorted_map sorted_wrt_iff_nth_less)
qed

lemma set_ownVotes: "set (ownVotes vs u) = {v \<in> set vs. voter v = u}"
  by (auto simp: ownVotes_def)

lemma length_ownVotes: "length (ownVotes vs u) = countVotes (\<lambda>v. voter v = u) vs"
  by (simp add: ownVotes_def countVotes_def)

lemma sorted_wrt_take_drop:
  "sorted_wrt P xs \<Longrightarrow> sorted_wrt P (take n (drop m xs))"
  by (simp add: sorted_wrt_drop sorted_wrt_take)

lemma ceiling_pages:
  fixes total :: nat and limit :: int
  assumes "1 \<le> limit"
  shows "(\<lceil>(of_nat total :: rat) / of_int limit\<rceil> - 1) * limit < int total"
    and "int total \<le> \<lceil>(of_nat total :: rat) / of_int limit\<rceil> * limit"
proof -
  let ?q = "(of_nat total :: rat) / of_int limit"
  have pos: "(0::rat) < of_int limit" using assms by simp
  have q: "?q * of_int limit = of_nat total" using pos by simp
  have "?q \<le> of_int \<lceil>?q\<rceil>" by (rule le_of_int_ceiling)
  then have "?q * of_int limit \<le> of_int \<lceil>?q\<rceil> * of_int limit"
    using pos by (intro mult_right_mono) simp_all
  then have "(of_int (int total) :: rat) \<le> of_int (\<lceil>?q\<rceil> * limit)"
    unfolding q by simp
  then show "int total \<le> \<lceil>?q\<rceil> * limit" by (simp only: of_int_le_iff)
  have "of_int \<lceil>?q\<rceil> - 1 < ?q" using ceiling_correct[of ?q] by linarith
  then have "(of_int \<lceil>?q\<rceil> - 1) * of_int limit < ?q * of_int limit"
    using pos by (intro mult_strict_right_mono) simp_all
  then have "(of_int ((\<lceil>?q\<rceil> - 1) * limit) :: rat) < of_int (int total)"
    unfolding q by simp
  then show "(\<lceil>?q\<rceil> - 1) * limit < int total" by (simp only: of_int_less_iff)
qed

lemma votingHistory_page:
  assumes "page = (case hist_page r of None \<Rightarrow> 1 | Some p \<Rightarrow> p)"
      and "limit = (case hist_limit r of None \<Rightarrow> 10 | Some l \<Rightarrow> l)"
      and "1 \<le> page" "1 \<le> limit"
  shows "votingHistory s r =
     Inr \<lparr>hist_votes = take (nat limit)
                         (drop (nat (page - 1) * nat limit) (ownVotes (votes s) (hist_user r))),
          hist_totalPages =
            Some \<lceil>(of_nat (countVotes (\<lambda>v. voter v = hist_user r) (votes s)) :: rat) / of_int limit\<rceil>,
          hist_currentPage = page,
          hist_total = countVotes (\<lambda>v. voter v = hist_user r) (votes s)\<rparr>"
proof -
  have "0 \<le> (page - 1) * limit" using assms(3,4) by simp
  moreover have "nat ((page - 1) * limit) = nat (page - 1) * nat limit"
    using assms(3,4) by (simp add: nat_mult_distrib)
  moreover have "\<bar>limit\<bar> = limit" "limit \<noteq> 0" using assms(4) by simp_all
  ultimately show ?thesis
    unfolding votingHistory_def Let_def assms(1)[symmetric] assms(2)[symmetric] by simp
qed

lemma pageVotes_eq:
  assumes "1 \<le> limit"
  shows "pageVotes s u limit (int i + 1) = take (nat limit) (drop (i * nat limit) (ownVotes (votes s) u))"
  using assms
    votingHistory_page[of "int i + 1" "\<lparr>hist_user = u, hist_page = Some (int i + 1), hist_limit = Some limit\<rparr>" limit s]
  by (simp add: pageVotes_def)

text \<open>
  Claim C7. For a page number and a limit of at least 1 (given, or the defaults 1 and
  10), \<^verbatim>\<open>GET /votes/history\<close> answers with votes of the caller only, the most recent
  first: the votes at the places \<open>(page - 1) * limit\<close> up to \<open>page * limit\<close> of the caller's
  votes in descending order of creation. \<open>total\<close> is the number of the caller's votes
  and \<open>totalPages\<close> is \<open>total / limit\<close> rounded up: the least number of pages that holds
  them all, and the pages 1 to \<open>totalPages\<close> one after the other are exactly the
  caller's votes, each once.
\<close>

theorem votingHistory_own_votes_paged:
  assumes "page = (case hist_page r of None \<Rightarrow> 1 | Some p \<Rightarrow> p)"
      and "limit = (case hist_limit r of None \<Rightarrow> 10 | Some l \<Rightarrow> l)"
      and "1 \<le> page" "1 \<le> limit"
  shows "\<exists>h n. votingHistory s r = Inr h \<and>
           set (hist_votes h) \<subseteq> {v \<in> set (votes s). voter v = hist_user r} \<and>
           sorted_wrt (\<lambda>a b. createdAt a \<ge> createdAt b) (hist_votes h) \<and>
           hist_votes h =
             take (nat limit) (drop (nat (page - 1) * nat limit) (ownVotes (votes s) (hist_user r))) \<and>
           set (ownVotes (votes s) (hist_user r)) = {v \<in> set (votes s). voter v = hist_user r} \<and>
           length (ownVotes (votes s) (hist_user r)) = hist_total h \<and>
           sorted_wrt (\<lambda>a b. createdAt a \<ge> createdAt b) (ownVotes (votes s) (hist_user r)) \<and>
           hist_currentPage h = page \<and>
           hist_total h = countVotes (\<lambda>v. voter v = hist_user r) (votes s) \<and>
           hist_totalPages h = Some \<lceil>(of_nat (hist_total h) :: rat) / of_int limit\<rceil> \<and>
           hist_totalPages h = Some (int n) \<and>
           (int n - 1) * limit < int (hist_total h) \<and> int (hist_total h) \<le> int n * limit \<and>
           concat (map (\<lambda>i. pageVotes s (hist_user r) limit (int i + 1)) [0..<n]) =
             ownVotes (votes s) (hist_user r)"
proof -
  let ?own = "ownVotes (votes s) (hist_user r)"
  let ?total = "countVotes (\<lambda>v. voter v = hist_user r) (votes s)"
  let ?tp = "\<lceil>(of_nat ?total :: rat) / of_int limit\<rceil>"
  let ?h = "\<lparr>hist_votes = take (nat limit) (drop (nat (page - 1) * nat limit) ?own),
          hist_totalPages = Some ?tp, hist_currentPage = page, hist_total = ?total\<rparr>"
  have eq: "votingHistory s r = Inr ?h" using assms by (rule votingHistory_page)
  have lo: "(?tp - 1) * limit < int ?total" and hi: "int ?total \<le> ?tp * limit"
    using ceiling_pages[OF assms(4), of ?total] by auto
  have "(0::rat) \<le> of_nat ?total / of_int limit" using assms(4) by simp
  then have "0 \<le> ?tp" by (simp add: zero_le_ceiling)
  then have tp: "int (nat ?tp) = ?tp" by simp
  have "length ?own \<le> nat ?tp * nat limit"
  proof -
    have "int (length ?own) \<le> ?tp * limit" using hi by (simp add: length_ownVotes)
    also have "\<dots> = int (nat ?tp * nat limit)" using tp assms(4) by simp
    finally show ?thesis by (simp only: of_nat_le_iff)
  qed
  then have cover: "concat (map (\<lambda>i. pageVotes s (hist_user r) limit (int i + 1)) [0..<nat ?tp]) = ?own"
    using assms(4) by (simp add: pageVotes_eq concat_pages)
  have sub: "set (hist_votes ?h) \<subseteq> {v \<in> set (votes s). voter v = hist_user r}"
    using set_take_subset[of "nat limit" "drop (nat (page - 1) * nat limit) ?own"]
      set_drop_subset[of "nat (page - 1) * nat limit" ?own] set_ownVotes[of "votes s" "hist_user r"]
    by auto
  have srt: "sorted_wrt (\<lambda>a b. createdAt a \<ge> createdAt b) (hist_votes ?h)"
    using sorted_ownVotes[of "votes s" "hist_user r"] by (simp add: sorted_wrt_take_drop)
  show ?thesis
    apply (rule exI[of _ ?h], rule exI[of _ "nat ?tp"])
    using eq sub srt cover lo hi tp set_ownVotes[of "votes s" "hist_user r"]
      sorted_ownVotes[of "votes s" "hist_user r"] length_ownVotes[of "votes s" "hist_user r"]
    by simp
qed

lemma ownVotes_ledgerHistory:
  "ownVotes (votes ledgerHistory) 7 =
     [someVote 102 7 ''Mayor'' 3000, someVote 103 7 ''Treasurer'' 2500, someVote 100 7 ''President'' 1000]"
  by (simp add: ownVotes_def ledgerHistory_def someVote_def)

theorem votingHistory_own_votes_paged_witness:
  "\<exists>h. votingHistory ledgerHistory \<lparr>hist_user = 7, hist_page = Some 2, hist_limit = Some 2\<rparr> = Inr h \<and>
        hist_votes h = [someVote 100 7 ''President'' 1000] \<and>
        hist_total h = 3 \<and> hist_totalPages h = Some 2 \<and> hist_currentPage h = 2"
proof -
  have c: "countVotes (\<lambda>v. voter v = 7) (votes ledgerHistory) = 3"
    by (simp add: countVotes_def ledgerHistory_def someVote_def)
  obtain h n where h: "votingHistory ledgerHistory \<lparr>hist_user = 7, hist_page = Some 2, hist_limit = Some 2\<rparr> = Inr h"
    "hist_votes h = take (nat 2) (drop (nat (2 - 1) * nat 2) (ownVotes (votes ledgerHistory)
        (hist_user \<lparr>hist_user = 7, hist_page = Some 2, hist_limit = Some 2\<rparr>)))"
    "hist_currentPage h = 2"
    "hist_total h = countVotes (\<lambda>v. voter v = hist_user \<lparr>hist_user = 7, hist_page = Some 2, hist_limit = Some 2\<rparr>) (votes ledgerHistory)"
    "hist_totalPages h = Some \<lceil>(of_nat (hist_total h) :: rat) / of_int 2\<rceil>"
    using votingHistory_own_votes_paged
      [of 2 "\<lparr>hist_user = 7, hist_page = Some 2, hist_limit = Some 2\<rparr>" 2 ledgerHistory]
    by auto
  have "hist_votes h = [someVote 100 7 ''President'' 1000]"
    using h(2) by (simp add: ownVotes_ledgerHistory)
  moreover have "hist_total h = 3" using h(4) c by simp
  moreover have "\<lceil>(3::rat) / 2\<rceil> = 2" by (rule ceiling_unique) simp_all
  ultimately have "hist_totalPages h = Some 2" "hist_total h = 3"
      "hist_votes h = [someVote 100 7 ''President'' 1000]"
    using h(5) by simp_all
  then show ?thesis using h(1,3) by blast
qed

end
